theory Spec2Isabelle
  imports Complex_Main "HOL-Library.Multiset" "HOL-Library.AList" "HOL-Library.Sublist"
begin

section \<open>Findings and results\<close>

text \<open>
  The checkers report every discrepancy as a Python dict literal, and a reference is a
  dict as well (\<open>Dict[str, Any]\<close>). A dict is modelled as an association list from key
  to value; the values that occur are strings, integers, \<open>None\<close> and lists.
  A finding whose first key is \<open>error_type\<close> is of kind error, one whose first key is
  \<open>warning_type\<close> is of kind warning.
\<close>

datatype pyval = PStr string | PInt int | PNone | PList "pyval list"

type_synonym finding = "(string \<times> pyval) list"

definition is_error_finding :: "finding \<Rightarrow> bool" where
  "is_error_finding f = (map_of f ''error_type'' \<noteq> None)"

definition is_warning_finding :: "finding \<Rightarrow> bool" where
  "is_warning_finding f = (map_of f ''warning_type'' \<noteq> None)"

type_synonym ref_dict = "(string \<times> pyval) list"

text \<open>\<open>d.get(key, default)\<close>.\<close>

definition dict_get :: "(string \<times> pyval) list \<Rightarrow> string \<Rightarrow> pyval \<Rightarrow> pyval" where
  "dict_get d k dflt = (case map_of d k of None \<Rightarrow> dflt | Some v \<Rightarrow> v)"

text \<open>The exceptions that the modelled code raises.\<close>

datatype exn = TypeError | UnboundLocalError string

section \<open>parallel\_processor.py\<close>

text \<open>
  \<open>ReferenceWorkItem\<close> and \<open>ReferenceResult\<close> are the two dataclasses of the module.
  The source paper and the verified data are opaque to the processor, so they are type
  parameters; the reference is a dict, which \<open>_print_reference_result\<close> reads.
  Wall-clock readings are inputs of the environment: the time an item is measured to
  take is given by a function of its index.
\<close>

record 's ReferenceWorkItem =
  index :: nat
  source_paper :: 's
  reference :: ref_dict
  timestamp :: rat

record 'v ReferenceResult =
  res_index :: nat
  errors :: "finding list option"
  url :: "string option"
  processing_time :: rat
  res_reference :: ref_dict
  verified_data :: "'v option"

text \<open>
  \<open>base_checker.verify_reference\<close> either raises (\<open>Inl\<close> carries \<open>str(e)\<close>) or returns
  the triple \<open>(errors, url, verified_data)\<close>.
\<close>

type_synonym ('s, 'v) checker =
  "'s \<Rightarrow> ref_dict \<Rightarrow> string + (finding list option \<times> string option \<times> 'v option)"

definition processing_failed :: "string \<Rightarrow> finding" where
  "processing_failed e =
     [(''error_type'', PStr ''processing_failed''),
      (''error_details'', PStr (''Internal processing error: '' @ e))]"

text \<open>
  The body of the inner \<open>try\<close> of \<open>_worker_loop\<close> for one work item: the result that is
  put on the result queue, from the \<open>try\<close> branch or from the \<open>except Exception\<close> branch.
\<close>

definition worker_result ::
  "('s, 'v) checker \<Rightarrow> (nat \<Rightarrow> rat) \<Rightarrow> 's ReferenceWorkItem \<Rightarrow> 'v ReferenceResult" where
  "worker_result verify took item =
     (case verify (source_paper item) (reference item) of
        Inr (errs, u, vd) \<Rightarrow>
          \<lparr>res_index = index item, errors = errs, url = u,
           processing_time = took (index item), res_reference = reference item,
           verified_data = vd\<rparr>
      | Inl e \<Rightarrow>
          \<lparr>res_index = index item, errors = Some [processing_failed e], url = None,
           processing_time = took (index item), res_reference = reference item,
           verified_data = None\<rparr>)"

subsection \<open>The worker pool\<close>

text \<open>
  A worker thread is either blocked in \<open>work_queue.get\<close>, or holds an item it is
  verifying, or has left its loop after taking a sentinel. The threads interleave in an
  order the program does not control; a schedule (the list of the worker ids that move,
  in order) makes that order explicit. One move of a waiting worker takes the head of the
  work queue; one move of a worker that holds an item puts its result on the result queue.
\<close>

datatype 's worker = Waiting | Holding "'s ReferenceWorkItem" | Exited

record ('s, 'v) pool =
  work_queue :: "'s ReferenceWorkItem option list"
  result_queue :: "'v ReferenceResult list"
  workers :: "'s worker list"

definition worker_loop_step ::
  "('s, 'v) checker \<Rightarrow> (nat \<Rightarrow> rat) \<Rightarrow> ('s, 'v) pool \<Rightarrow> nat \<Rightarrow> ('s, 'v) pool" where
  "worker_loop_step verify took pl w =
     (if w < length (workers pl) then
        (case workers pl ! w of
           Exited \<Rightarrow> pl
         | Waiting \<Rightarrow>
             (case work_queue pl of
                [] \<Rightarrow> pl
              | None # q \<Rightarrow> pl\<lparr>work_queue := q, workers := (workers pl)[w := Exited]\<rparr>
              | Some item # q \<Rightarrow> pl\<lparr>work_queue := q, workers := (workers pl)[w := Holding item]\<rparr>)
         | Holding item \<Rightarrow>
             pl\<lparr>result_queue := result_queue pl @ [worker_result verify took item],
                workers := (workers pl)[w := Waiting]\<rparr>)
      else pl)"

definition run_workers ::
  "('s, 'v) checker \<Rightarrow> (nat \<Rightarrow> rat) \<Rightarrow> nat list \<Rightarrow> ('s, 'v) pool \<Rightarrow> ('s, 'v) pool" where
  "run_workers verify took sched pl = foldl (worker_loop_step verify took) pl sched"

definition all_exited :: "('s, 'v) pool \<Rightarrow> bool" where
  "all_exited pl = list_all (\<lambda>w. w = Exited) (workers pl)"

text \<open>The work items of a bibliography, as the \<open>enumerate\<close> loop builds them.\<close>

definition work_items :: "(nat \<Rightarrow> rat) \<Rightarrow> 's \<Rightarrow> ref_dict list \<Rightarrow> 's ReferenceWorkItem list" where
  "work_items now src bibliography =
     map (\<lambda>(i, r). \<lparr>index = i, source_paper = src, reference = r, timestamp = now i\<rparr>)
       (enumerate 0 bibliography)"

definition initial_pool :: "nat \<Rightarrow> 's ReferenceWorkItem list \<Rightarrow> ('s, 'v) pool" where
  "initial_pool max_workers items =
     \<lparr>work_queue = map Some items @ replicate max_workers None,
      result_queue = [],
      workers = replicate max_workers Waiting\<rparr>"

subsection \<open>Printing a result\<close>

text \<open>
  \<open>_print_reference_result\<close> writes the reference to standard output. What the printer
  thread observes of it is whether it raises. Its first statements read the reference:
  \<open>', '.join(reference.get('authors', []))\<close> raises a \<open>TypeError\<close> unless the value is a
  string or a list of strings, and \<open>re.match(r'\[(\d+)\]', raw_text)\<close> raises a
  \<open>TypeError\<close> unless \<open>raw_text\<close> is a string. Both come before the first \<open>print\<close>. The
  other fields are only tested for truth and formatted, which no value makes raise;
  \<open>deduplicate_urls\<close> (of \<open>utils.text_utils\<close>) is taken to return.
\<close>

fun is_str :: "pyval \<Rightarrow> bool" where
  "is_str (PStr s) = True"
| "is_str v = False"

fun joinable :: "pyval \<Rightarrow> bool" where
  "joinable (PStr s) = True"
| "joinable (PList xs) = list_all is_str xs"
| "joinable v = False"

definition print_reference_result :: "'v ReferenceResult \<Rightarrow> exn + unit" where
  "print_reference_result result =
     (let reference = res_reference result
      in if \<not> joinable (dict_get reference ''authors'' (PList [])) then Inl TypeError
         else if \<not> is_str (dict_get reference ''raw_text'' (PStr [])) then Inl TypeError
         else Inr ())"

subsection \<open>The ordering buffer and the statistics\<close>

record processing_stats =
  total_processed :: nat
  total_errors :: nat
  avg_processing_time :: rat
  fastest_time :: "rat option"
  slowest_time :: rat

text \<open>
  The fields of the processor that the printer thread reads and writes. \<open>printed\<close> and
  \<open>called\<close> are the observable outputs: the results that \<open>_print_reference_result\<close>
  has printed and those handed to the callback, in order; \<open>callback_failures\<close> are the
  indices at which the callback raised and the failure was logged; \<open>printer_errors\<close>
  are the indices at which printing raised and \<open>Result printer error\<close> was logged.
  \<open>fastest_time = None\<close> stands for \<open>float('inf')\<close>.
\<close>

record 'v processor =
  max_workers :: nat
  result_buffer :: "(nat \<times> 'v ReferenceResult) list"
  next_print_index :: nat
  total_references :: nat
  completed_count :: nat
  stats :: processing_stats
  printed :: "'v ReferenceResult list"
  called :: "'v ReferenceResult list"
  callback_failures :: "nat list"
  printer_errors :: "nat list"

definition new_processor :: "nat \<Rightarrow> 'v processor" where
  "new_processor mw =
     \<lparr>max_workers = mw, result_buffer = [], next_print_index = 0, total_references = 0,
      completed_count = 0,
      stats = \<lparr>total_processed = 0, total_errors = 0, avg_processing_time = 0,
               fastest_time = None, slowest_time = 0\<rparr>,
      printed = [], called = [], callback_failures = [], printer_errors = []\<rparr>"

definition update_stats :: "'v ReferenceResult \<Rightarrow> processing_stats \<Rightarrow> processing_stats" where
  "update_stats result s =
     (let total = total_processed s + 1;
          proc_time = processing_time result
      in \<lparr>total_processed = total,
          total_errors =
            (case errors result of
               None \<Rightarrow> total_errors s
             | Some es \<Rightarrow> if es = [] then total_errors s else total_errors s + length es),
          avg_processing_time =
            (avg_processing_time s * (of_nat total - 1) + proc_time) / of_nat total,
          fastest_time =
            (case fastest_time s of None \<Rightarrow> Some proc_time | Some f \<Rightarrow> Some (min f proc_time)),
          slowest_time = max (slowest_time s) proc_time\<rparr>)"

text \<open>
  The callback is the caller's function; what the processor observes of it is whether it
  raises. \<open>None\<close> is the absent callback.
\<close>

type_synonym 'v callback = "('v ReferenceResult \<Rightarrow> bool) option"

text \<open>
  The body of the inner loop of \<open>_ordered_result_printer\<close> after the buffered result at
  \<open>next_print_index\<close> has been printed: call the callback (a raise is logged and
  skipped), delete the result from the buffer and advance.
\<close>

definition emit_result ::
  "'v callback \<Rightarrow> 'v processor \<Rightarrow> 'v ReferenceResult \<Rightarrow> 'v processor" where
  "emit_result cb p current_result =
     p\<lparr>printed := printed p @ [current_result],
       called := (case cb of None \<Rightarrow> called p | Some f \<Rightarrow> called p @ [current_result]),
       callback_failures :=
         (case cb of
            None \<Rightarrow> callback_failures p
          | Some f \<Rightarrow>
              if f current_result then callback_failures p @ [res_index current_result]
              else callback_failures p),
       result_buffer := AList.delete (next_print_index p) (result_buffer p),
       next_print_index := next_print_index p + 1,
       completed_count := completed_count p + 1\<rparr>"

lemma length_delete_less:
  "map_of al k = Some v \<Longrightarrow> length (AList.delete k al) < length al"
  by (induction al) (auto simp: less_Suc_eq_le length_filter_le AList.delete_eq split: if_splits)

text \<open>
  The inner \<open>while self.next_print_index in self.result_buffer\<close> loop. A round whose
  \<open>_print_reference_result\<close> raises leaves the loop through the \<open>except Exception\<close> of
  the outer loop: the error is logged, and the callback, the deletion and the advance of
  that round do not happen, so the result stays in the buffer under the index that is
  still the next to print. The loop ends because every other round deletes a key of the
  buffer.
\<close>

function flush_buffer :: "'v callback \<Rightarrow> 'v processor \<Rightarrow> 'v processor" where
  "flush_buffer cb p =
     (case map_of (result_buffer p) (next_print_index p) of
        None \<Rightarrow> p
      | Some current_result \<Rightarrow>
          (case print_reference_result current_result of
             Inl e \<Rightarrow> p\<lparr>printer_errors := printer_errors p @ [next_print_index p]\<rparr>
           | Inr u \<Rightarrow> flush_buffer cb (emit_result cb p current_result)))"
  by pat_completeness auto

termination
  by (relation "measure (\<lambda>(cb, p). length (result_buffer p))")
     (auto simp: length_delete_less emit_result_def)

declare flush_buffer.simps [simp del]

text \<open>
  One round of the outer loop of \<open>_ordered_result_printer\<close> for a result taken from the
  result queue: store it, update the statistics, flush.
\<close>

definition receive_result ::
  "'v callback \<Rightarrow> 'v processor \<Rightarrow> 'v ReferenceResult \<Rightarrow> 'v processor" where
  "receive_result cb p result =
     flush_buffer cb
       (p\<lparr>result_buffer := AList.update (res_index result) result (result_buffer p),
          stats := update_stats result (stats p)\<rparr>)"

text \<open>
  The printer thread, run on the results in the order in which they enter the result
  queue. While \<open>next_print_index < total_references\<close> it takes the next result; when the
  queue holds no further result and none will come, \<open>get\<close> blocks for ever.
\<close>

datatype 'v printer_run = Finished "'v processor" | Blocked_in_get "'v processor"

fun ordered_result_printer ::
  "'v callback \<Rightarrow> 'v processor \<Rightarrow> 'v ReferenceResult list \<Rightarrow> 'v printer_run" where
  "ordered_result_printer cb p [] =
     (if next_print_index p < total_references p then Blocked_in_get p else Finished p)"
| "ordered_result_printer cb p (result # rest) =
     (if next_print_index p < total_references p
      then ordered_result_printer cb (receive_result cb p result) rest
      else Finished p)"

text \<open>
  The snapshot of \<open>_get_stats\<close>, without the two entries that are computed from the wall
  clock (\<open>total_time\<close> and \<open>references_per_second\<close>).
\<close>

record batch_statistics =
  bs_total_references :: nat
  bs_total_errors :: nat
  bs_avg_processing_time :: rat
  bs_fastest_time :: rat
  bs_slowest_time :: rat

definition get_stats :: "'v processor \<Rightarrow> batch_statistics" where
  "get_stats p =
     \<lparr>bs_total_references = total_references p,
      bs_total_errors = total_errors (stats p),
      bs_avg_processing_time = avg_processing_time (stats p),
      bs_fastest_time = (case fastest_time (stats p) of None \<Rightarrow> 0 | Some f \<Rightarrow> f),
      bs_slowest_time = slowest_time (stats p)\<rparr>"

text \<open>
  \<open>verify_references_parallel\<close>. \<open>ThreadPoolExecutor\<close> refuses a pool of no workers with a
  \<open>ValueError\<close>. A schedule that stops while a worker is still in its loop describes only
  a prefix of a run. When every worker has left its loop the main thread joins the
  printer thread; a run in which the printer waits for a result that never arrives does
  not return: \<open>Blocked\<close>, with the state in which the printer waits.
\<close>

datatype 'v outcome =
    Returned "'v processor" batch_statistics
  | Raised
  | Unfinished
  | Blocked "'v processor"

definition verify_references_parallel ::
  "('s, 'v) checker \<Rightarrow> (nat \<Rightarrow> rat) \<Rightarrow> (nat \<Rightarrow> rat) \<Rightarrow> nat list \<Rightarrow> 'v processor \<Rightarrow>
     's \<Rightarrow> ref_dict list \<Rightarrow> 'v callback \<Rightarrow> 'v outcome" where
  "verify_references_parallel verify now took sched p src bibliography result_callback =
     (if bibliography = [] then Returned p (get_stats p)
      else
        let p1 = p\<lparr>total_references := length bibliography, next_print_index := 0,
                   completed_count := 0, result_buffer := []\<rparr>;
            pl = run_workers verify took sched
                   (initial_pool (max_workers p) (work_items now src bibliography))
        in if max_workers p = 0 then Raised
           else if \<not> all_exited pl then Unfinished
           else (case ordered_result_printer result_callback p1 (result_queue pl) of
                   Blocked_in_get p2 \<Rightarrow> Blocked p2
                 | Finished p2 \<Rightarrow> Returned p2 (get_stats p2)))"

subsection \<open>The ordering buffer flushes in index order\<close>

lemma mset_delete_entry:
  "distinct (map fst al) \<Longrightarrow> map_of al k = Some v \<Longrightarrow>
   mset (map snd al) = add_mset v (mset (map snd (AList.delete k al)))"
proof (induction al)
  case Nil
  then show ?case by simp
next
  case (Cons e al)
  obtain k' v' where e: "e = (k', v')" by (cases e)
  show ?case
  proof (cases "k' = k")
    case True
    with Cons.prems e have "v' = v" by simp
    moreover from Cons.prems e True have "k \<notin> fst ` set al" by simp
    then have "AList.delete k al = al"
      by (simp add: AList.delete_eq filter_id_conv) force
    ultimately show ?thesis using e True by simp
  next
    case False
    with Cons e show ?thesis by simp
  qed
qed

lemma keys_delete: "fst ` set (AList.delete k al) = fst ` set al - {k}"
  by (auto simp: AList.delete_eq)

lemma update_fresh: "k \<notin> fst ` set al \<Longrightarrow> AList.update k v al = al @ [(k, v)]"
  by (induction al) auto

lemma cover_shrink:
  fixes K S :: "nat set"
  assumes "K \<union> S = {n..<N}" "S \<inter> K = {}" "{n..<m} \<subseteq> K" "n \<le> m"
  shows "(K - {n..<m}) \<union> S = {m..<N}"
proof -
  have a: "\<And>x. x \<in> K \<or> x \<in> S \<longleftrightarrow> n \<le> x \<and> x < N"
    using assms(1) by (auto simp: set_eq_iff)
  have b: "\<And>x. x \<in> S \<Longrightarrow> x \<notin> K" using assms(2) by auto
  have c: "\<And>x. n \<le> x \<Longrightarrow> x < m \<Longrightarrow> x \<in> K" using assms(3) by auto
  show ?thesis
  proof (rule set_eqI)
    fix x
    show "x \<in> (K - {n..<m}) \<union> S \<longleftrightarrow> x \<in> {m..<N}"
      using a[of x] b[of x] c[of x] assms(4) by (cases "x < m") auto
  qed
qed

text \<open>A result prints when \<open>_print_reference_result\<close> returns on it.\<close>

definition printable :: "'v ReferenceResult \<Rightarrow> bool" where
  "printable r = (print_reference_result r = Inr ())"

text \<open>
  The buffer is well formed when no index is stored twice and every entry is stored
  under the index it carries.
\<close>

definition buffer_ok :: "'v processor \<Rightarrow> bool" where
  "buffer_ok p = (distinct (map fst (result_buffer p)) \<and>
     (\<forall>e \<in> set (result_buffer p). res_index (snd e) = fst e))"

text \<open>
  The printer is stuck when the result that is the next to print does not print: every
  later round of the inner loop fails on it again.
\<close>

definition stuck :: "'v processor \<Rightarrow> bool" where
  "stuck p = (case map_of (result_buffer p) (next_print_index p) of
                None \<Rightarrow> False
              | Some r \<Rightarrow> \<not> printable r)"

text \<open>
  \<open>flushed cb p q cs\<close>: going from \<open>p\<close> to \<open>q\<close> printed exactly the results \<open>cs\<close>
  (and called the callback on them, when there is one), these are the buffered results of
  the indices from the cursor of \<open>p\<close> up to the cursor of \<open>q\<close>, in order, and the cursor of
  \<open>q\<close> is not buffered or does not print.
\<close>

definition flushed ::
  "'v callback \<Rightarrow> 'v processor \<Rightarrow> 'v processor \<Rightarrow> 'v ReferenceResult list \<Rightarrow> bool" where
  "flushed cb p q cs = (next_print_index p \<le> next_print_index q \<and>
     printed q = printed p @ cs \<and>
     called q = called p @ (if cb = None then [] else cs) \<and>
     map res_index cs = [next_print_index p ..< next_print_index q] \<and>
     mset cs + mset (map snd (result_buffer q)) = mset (map snd (result_buffer p)) \<and>
     fst ` set (result_buffer q) =
       fst ` set (result_buffer p) - {next_print_index p ..< next_print_index q} \<and>
     {next_print_index p ..< next_print_index q} \<subseteq> fst ` set (result_buffer p) \<and>
     (next_print_index q \<notin> fst ` set (result_buffer q) \<or> stuck q) \<and>
     buffer_ok q \<and>
     total_references q = total_references p \<and>
     stats q = stats p \<and>
     max_workers q = max_workers p \<and>
     list_all printable cs)"

lemma flushedD:
  assumes "flushed cb p q cs"
  shows "next_print_index p \<le> next_print_index q"
    and "printed q = printed p @ cs"
    and "called q = called p @ (if cb = None then [] else cs)"
    and "map res_index cs = [next_print_index p ..< next_print_index q]"
    and "mset cs + mset (map snd (result_buffer q)) = mset (map snd (result_buffer p))"
    and "fst ` set (result_buffer q) =
       fst ` set (result_buffer p) - {next_print_index p ..< next_print_index q}"
    and "{next_print_index p ..< next_print_index q} \<subseteq> fst ` set (result_buffer p)"
    and "next_print_index q \<notin> fst ` set (result_buffer q) \<or> stuck q"
    and "buffer_ok q"
    and "total_references q = total_references p"
    and "stats q = stats p"
    and "max_workers q = max_workers p"
    and "list_all printable cs"
  using assms unfolding flushed_def by blast+

lemma flushed_refl:
  "buffer_ok p \<Longrightarrow> map_of (result_buffer p) (next_print_index p) = None \<Longrightarrow> flushed cb p p []"
  by (simp add: flushed_def map_of_eq_None_iff)

lemma flushed_stop:
  assumes "buffer_ok p" "map_of (result_buffer p) (next_print_index p) = Some cur"
    and "\<not> printable cur"
  shows "flushed cb p (p\<lparr>printer_errors := es\<rparr>) []"
  using assms by (simp add: flushed_def stuck_def buffer_ok_def)

lemma buffer_ok_emit: "buffer_ok p \<Longrightarrow> buffer_ok (emit_result cb p cur)"
proof -
  assume ok: "buffer_ok p"
  have "set (AList.delete k al) \<subseteq> set al" for k and al :: "(nat \<times> 'a ReferenceResult) list"
    by (auto simp: AList.delete_eq)
  then show ?thesis
    using ok unfolding buffer_ok_def emit_result_def
    by (auto simp: AList.distinct_delete)
qed

lemma flushed_step:
  assumes ok: "buffer_ok p"
    and cur: "map_of (result_buffer p) (next_print_index p) = Some cur"
    and pr: "printable cur"
    and q: "flushed cb (emit_result cb p cur) q cs"
  shows "flushed cb p q (cur # cs)"
proof -
  let ?n = "next_print_index p" and ?m = "next_print_index q"
  let ?p2 = "emit_result cb p cur"
  have mem: "(?n, cur) \<in> set (result_buffer p)" using cur by (rule map_of_SomeD)
  then have idx: "res_index cur = ?n" using ok by (force simp: buffer_ok_def)
  have nmem: "?n \<in> fst ` set (result_buffer p)" using mem by force
  have n2: "next_print_index ?p2 = ?n + 1" by (simp add: emit_result_def)
  have pr2: "printed ?p2 = printed p @ [cur]" by (simp add: emit_result_def)
  have c2: "called ?p2 = called p @ (if cb = None then [] else [cur])"
    by (cases cb) (simp_all add: emit_result_def)
  have b2: "result_buffer ?p2 = AList.delete ?n (result_buffer p)" by (simp add: emit_result_def)
  have o2: "total_references ?p2 = total_references p" "stats ?p2 = stats p"
    "max_workers ?p2 = max_workers p" by (simp_all add: emit_result_def)
  have le: "?n + 1 \<le> ?m" using flushedD(1)[OF q] n2 by simp
  have upt: "[?n ..< ?m] = ?n # [?n + 1 ..< ?m]" using le by (simp add: upt_conv_Cons)
  have ivl: "{?n ..< ?m} = insert ?n {?n + 1 ..< ?m}" using le by auto
  have ms: "mset (map snd (result_buffer p)) = add_mset cur (mset (map snd (result_buffer ?p2)))"
    using mset_delete_entry[OF _ cur] ok by (simp add: b2 buffer_ok_def)
  have keys2: "fst ` set (result_buffer ?p2) = fst ` set (result_buffer p) - {?n}"
    by (simp add: b2 keys_delete)
  have 1: "?n \<le> ?m" using le by simp
  have 2: "printed q = printed p @ cur # cs" using flushedD(2)[OF q] by (simp add: pr2)
  have 3: "called q = called p @ (if cb = None then [] else cur # cs)"
    using flushedD(3)[OF q] by (simp add: c2)
  have 4: "map res_index (cur # cs) = [?n ..< ?m]"
    using flushedD(4)[OF q] unfolding n2 upt by (simp add: idx)
  have 5: "mset (cur # cs) + mset (map snd (result_buffer q)) = mset (map snd (result_buffer p))"
    using flushedD(5)[OF q] unfolding ms by simp
  have 6: "fst ` set (result_buffer q) = fst ` set (result_buffer p) - {?n ..< ?m}"
    using flushedD(6)[OF q] unfolding n2 keys2 ivl by auto
  have 7: "{?n ..< ?m} \<subseteq> fst ` set (result_buffer p)"
    using flushedD(7)[OF q] nmem unfolding n2 keys2 ivl by auto
  have 8: "total_references q = total_references p" "stats q = stats p" "max_workers q = max_workers p"
    using flushedD(10,11,12)[OF q] unfolding o2 by simp_all
  have 9: "list_all printable (cur # cs)" using pr flushedD(13)[OF q] by simp
  show ?thesis
    unfolding flushed_def
    using 1 2 3 4 5 6 7 8 9 flushedD(8)[OF q] flushedD(9)[OF q] by blast
qed

lemma flush_buffer_flushed:
  "buffer_ok p \<Longrightarrow> \<exists>cs. flushed cb p (flush_buffer cb p) cs"
proof (induction cb p rule: flush_buffer.induct)
  case (1 cb p)
  show ?case
  proof (cases "map_of (result_buffer p) (next_print_index p)")
    case None
    then have "flush_buffer cb p = p"
      by (subst flush_buffer.simps) simp
    with None "1.prems" show ?thesis using flushed_refl by fastforce
  next
    case (Some cur)
    show ?thesis
    proof (cases "print_reference_result cur")
      case (Inl e)
      have fl: "flush_buffer cb p = p\<lparr>printer_errors := printer_errors p @ [next_print_index p]\<rparr>"
        by (subst flush_buffer.simps) (simp add: Some Inl)
      have "\<not> printable cur" using Inl by (simp add: printable_def)
      then have "flushed cb p (flush_buffer cb p) []"
        unfolding fl by (rule flushed_stop[OF "1.prems" Some])
      then show ?thesis ..
    next
      case (Inr u)
      have fl: "flush_buffer cb p = flush_buffer cb (emit_result cb p cur)"
        by (subst flush_buffer.simps) (simp add: Some Inr)
      have pr: "printable cur" using Inr by (simp add: printable_def)
      have "\<exists>cs. flushed cb (emit_result cb p cur) (flush_buffer cb (emit_result cb p cur)) cs"
        using "1.IH"[OF Some Inr] "1.prems" by (simp add: buffer_ok_emit)
      then obtain cs where
        "flushed cb (emit_result cb p cur) (flush_buffer cb (emit_result cb p cur)) cs" ..
      then have "flushed cb p (flush_buffer cb p) (cur # cs)"
        unfolding fl by (rule flushed_step[OF "1.prems" Some pr])
      then show ?thesis ..
    qed
  qed
qed

text \<open>The first half of a round of the printer: the result is stored and counted.\<close>

definition store_result :: "'v processor \<Rightarrow> 'v ReferenceResult \<Rightarrow> 'v processor" where
  "store_result p r = p\<lparr>result_buffer := AList.update (res_index r) r (result_buffer p),
          stats := update_stats r (stats p)\<rparr>"

lemma receive_result_alt: "receive_result cb p r = flush_buffer cb (store_result p r)"
  by (simp add: receive_result_def store_result_def)

lemma buffer_ok_store:
  assumes "buffer_ok p" "res_index r \<notin> fst ` set (result_buffer p)"
  shows "buffer_ok (store_result p r)"
  using assms by (auto simp: buffer_ok_def store_result_def update_fresh)

text \<open>
  A stuck printer stays stuck: it takes every further result, fails on the same buffered
  result again, and at last waits for a result that never comes.
\<close>

lemma receive_result_stuck:
  assumes "stuck p" "res_index r \<noteq> next_print_index p"
  shows "receive_result cb p r =
           (store_result p r)\<lparr>printer_errors := printer_errors p @ [next_print_index p]\<rparr>"
proof -
  obtain cur where cur: "map_of (result_buffer p) (next_print_index p) = Some cur"
    and np: "\<not> printable cur"
    using assms(1) by (auto simp: stuck_def split: option.splits)
  have m: "map_of (result_buffer (store_result p r)) (next_print_index (store_result p r)) = Some cur"
    using cur assms(2) by (simp add: store_result_def AList.update_conv')
  obtain e where e: "print_reference_result cur = Inl e"
    using np by (cases "print_reference_result cur") (simp_all add: printable_def)
  show ?thesis
    unfolding receive_result_alt
    by (subst flush_buffer.simps) (simp add: m e, simp add: store_result_def)
qed

lemma printer_stuck:
  assumes "stuck p" "next_print_index p < total_references p"
    and "next_print_index p \<notin> set (map res_index rs)"
  shows "\<exists>q. ordered_result_printer cb p rs = Blocked_in_get q \<and>
             printed q = printed p \<and> called q = called p \<and>
             next_print_index q = next_print_index p"
  using assms
proof (induction rs arbitrary: p)
  case Nil
  then show ?case by simp
next
  case (Cons r rs)
  let ?p' = "(store_result p r)\<lparr>printer_errors := printer_errors p @ [next_print_index p]\<rparr>"
  have ne: "res_index r \<noteq> next_print_index p" using Cons.prems(3) by auto
  have rr: "receive_result cb p r = ?p'"
    using Cons.prems(1) ne by (rule receive_result_stuck)
  have s': "stuck ?p'"
    using Cons.prems(1) ne by (simp add: stuck_def store_result_def AList.update_conv')
  have f: "next_print_index ?p' = next_print_index p" "total_references ?p' = total_references p"
    "printed ?p' = printed p" "called ?p' = called p"
    by (simp_all add: store_result_def)
  have "\<exists>q. ordered_result_printer cb ?p' rs = Blocked_in_get q \<and>
             printed q = printed ?p' \<and> called q = called ?p' \<and>
             next_print_index q = next_print_index ?p'"
    by (rule Cons.IH[OF s']) (use Cons.prems f in simp_all)
  then show ?case using Cons.prems(2) unfolding f by (simp add: rr)
qed

text \<open>
  The printer on results of pairwise different indices that fill the range from the
  cursor to the total: either it emits them all in index order, or it blocks, and then
  one of the results does not print.
\<close>

lemma printer_general:
  assumes "buffer_ok p"
    and "next_print_index p \<notin> fst ` set (result_buffer p)"
    and "next_print_index p \<le> total_references p"
    and "distinct (map res_index rs)"
    and "fst ` set (result_buffer p) \<inter> set (map res_index rs) = {}"
    and "fst ` set (result_buffer p) \<union> set (map res_index rs) =
           {next_print_index p ..< total_references p}"
  shows "(\<exists>q cs. ordered_result_printer cb p rs = Finished q \<and>
           next_print_index q = total_references p \<and>
           total_references q = total_references p \<and>
           max_workers q = max_workers p \<and>
           printed q = printed p @ cs \<and>
           called q = called p @ (if cb = None then [] else cs) \<and>
           map res_index cs = [next_print_index p ..< total_references p] \<and>
           mset cs = mset (map snd (result_buffer p)) + mset rs \<and>
           stats q = foldl (\<lambda>s r. update_stats r s) (stats p) rs \<and>
           list_all printable cs) \<or>
         ((\<exists>q cs. ordered_result_printer cb p rs = Blocked_in_get q \<and>
             next_print_index p \<le> next_print_index q \<and>
             next_print_index q < total_references p \<and>
             printed q = printed p @ cs \<and>
             called q = called p @ (if cb = None then [] else cs) \<and>
             map res_index cs = [next_print_index p ..< next_print_index q]) \<and>
          (\<exists>r \<in> set (map snd (result_buffer p)) \<union> set rs. \<not> printable r))"
  using assms
proof (induction rs arbitrary: p)
  case Nil
  then have "next_print_index p = total_references p"
    by (metis atLeastLessThan_iff empty_set image_is_empty le_neq_implies_less
        list.map_disc_iff order_refl sup_bot.right_neutral)
  moreover from Nil.prems this have "result_buffer p = []" by auto
  ultimately show ?case by simp
next
  case (Cons r rs)
  let ?n = "next_print_index p" and ?N = "total_references p"
  let ?K = "fst ` set (result_buffer p)"
  let ?p1 = "store_result p r"
  let ?q1 = "flush_buffer cb ?p1"
  let ?m = "next_print_index ?q1"
  have rin: "res_index r \<in> {?n ..< ?N}" using Cons.prems(6) by auto
  then have lt: "?n < ?N" by simp
  have fresh: "res_index r \<notin> ?K" using Cons.prems(5) by auto
  have ok1: "buffer_ok ?p1" using Cons.prems(1) fresh by (rule buffer_ok_store)
  obtain cs1 where fq: "flushed cb ?p1 ?q1 cs1"
    using flush_buffer_flushed[OF ok1] by blast
  have b1: "result_buffer ?p1 = result_buffer p @ [(res_index r, r)]"
    by (simp add: store_result_def update_fresh[OF fresh])
  have k1: "fst ` set (result_buffer ?p1) = insert (res_index r) ?K" by (simp add: b1)
  have f1: "next_print_index ?p1 = ?n" "total_references ?p1 = ?N" "called ?p1 = called p"
    "stats ?p1 = update_stats r (stats p)" "max_workers ?p1 = max_workers p"
    "printed ?p1 = printed p"
    by (simp_all add: store_result_def)
  have nm: "?n \<le> ?m" using flushedD(1)[OF fq] by (simp add: f1)
  have sub: "{?n ..< ?m} \<subseteq> insert (res_index r) ?K" using flushedD(7)[OF fq] by (simp add: f1 k1)
  have kq: "fst ` set (result_buffer ?q1) = insert (res_index r) ?K - {?n ..< ?m}"
    using flushedD(6)[OF fq] by (simp add: f1 k1)
  have Ksub: "insert (res_index r) ?K \<subseteq> {?n ..< ?N}" using Cons.prems(6) by auto
  have mN: "?m \<le> ?N"
  proof (rule ccontr)
    assume "\<not> ?m \<le> ?N"
    then have "?N \<in> {?n ..< ?m}" using lt by simp
    then have "?N \<in> {?n ..< ?N}" using sub Ksub by blast
    then show False by simp
  qed
  have rs_disj: "set (map res_index rs) \<inter> insert (res_index r) ?K = {}"
    using Cons.prems(4,5) by auto
  have tq: "total_references ?q1 = ?N" using flushedD(10)[OF fq] by (simp add: f1)
  have run: "ordered_result_printer cb p (r # rs) = ordered_result_printer cb ?q1 rs"
    using lt by (simp add: receive_result_alt)
  have "set_mset (mset (map snd (result_buffer ?q1))) \<subseteq>
        set_mset (mset cs1 + mset (map snd (result_buffer ?q1)))"
    by simp
  then have vals: "set (map snd (result_buffer ?q1)) \<subseteq> insert r (set (map snd (result_buffer p)))"
    unfolding flushedD(5)[OF fq] by (simp add: b1)
  have A5: "fst ` set (result_buffer ?q1) \<inter> set (map res_index rs) = {}"
    unfolding kq using rs_disj by blast
  show ?case
  proof (cases "stuck ?q1")
    case True
    then obtain cur where cur: "map_of (result_buffer ?q1) ?m = Some cur" "\<not> printable cur"
      by (auto simp: stuck_def split: option.splits)
    have inq: "(?m, cur) \<in> set (result_buffer ?q1)" using cur(1) by (rule map_of_SomeD)
    then have mk: "?m \<in> fst ` set (result_buffer ?q1)" by force
    then have "?m \<in> {?n ..< ?N}" unfolding kq using Ksub by blast
    then have mlt: "?m < total_references ?q1" unfolding tq by simp
    have mrs: "?m \<notin> set (map res_index rs)" using mk A5 by blast
    obtain q where q: "ordered_result_printer cb ?q1 rs = Blocked_in_get q"
      "printed q = printed ?q1" "called q = called ?q1" "next_print_index q = ?m"
      using printer_stuck[OF True mlt mrs] by blast
    have B1: "ordered_result_printer cb p (r # rs) = Blocked_in_get q"
      unfolding run by (rule q(1))
    have B2: "?n \<le> next_print_index q" "next_print_index q < ?N"
      using nm mlt tq q(4) by simp_all
    have B3: "printed q = printed p @ cs1" using q(2) flushedD(2)[OF fq] by (simp add: f1)
    have B4: "called q = called p @ (if cb = None then [] else cs1)"
      using q(3) flushedD(3)[OF fq] by (simp add: f1)
    have B5: "map res_index cs1 = [?n ..< next_print_index q]"
      using flushedD(4)[OF fq] q(4) by (simp add: f1)
    have B: "\<exists>q cs. ordered_result_printer cb p (r # rs) = Blocked_in_get q \<and>
             ?n \<le> next_print_index q \<and> next_print_index q < ?N \<and>
             printed q = printed p @ cs \<and>
             called q = called p @ (if cb = None then [] else cs) \<and>
             map res_index cs = [?n ..< next_print_index q]"
      by (rule exI[of _ q], rule exI[of _ cs1]) (simp only: B1 B2 B3 B4 B5 simp_thms)
    have "cur \<in> set (map snd (result_buffer ?q1))" using inq by force
    then have "cur \<in> insert r (set (map snd (result_buffer p)))" using vals by blast
    then have "\<exists>x \<in> set (map snd (result_buffer p)) \<union> set (r # rs). \<not> printable x"
      using cur(2) by auto
    with B show ?thesis by blast
  next
    case False
    have A1: "buffer_ok ?q1" using fq by (rule flushedD(9))
    have A2: "next_print_index ?q1 \<notin> fst ` set (result_buffer ?q1)"
      using flushedD(8)[OF fq] False by blast
    have A3: "next_print_index ?q1 \<le> total_references ?q1" using tq mN by simp
    have A4: "distinct (map res_index rs)" using Cons.prems(4) by simp
    have cover: "insert (res_index r) ?K \<union> set (map res_index rs) = {?n ..< ?N}"
      using Cons.prems(6) by auto
    have A6: "fst ` set (result_buffer ?q1) \<union> set (map res_index rs) =
             {next_print_index ?q1 ..< total_references ?q1}"
      unfolding kq tq by (rule cover_shrink[OF cover rs_disj sub nm])
    from Cons.IH[OF A1 A2 A3 A4 A5 A6]
    show ?thesis
    proof (elim disjE)
      assume "(\<exists>q cs. ordered_result_printer cb ?q1 rs = Blocked_in_get q \<and>
             next_print_index ?q1 \<le> next_print_index q \<and>
             next_print_index q < total_references ?q1 \<and>
             printed q = printed ?q1 @ cs \<and>
             called q = called ?q1 @ (if cb = None then [] else cs) \<and>
             map res_index cs = [next_print_index ?q1 ..< next_print_index q]) \<and>
          (\<exists>r \<in> set (map snd (result_buffer ?q1)) \<union> set rs. \<not> printable r)"
      then obtain q cs x where q: "ordered_result_printer cb ?q1 rs = Blocked_in_get q"
          "?m \<le> next_print_index q" "next_print_index q < total_references ?q1"
          "printed q = printed ?q1 @ cs"
          "called q = called ?q1 @ (if cb = None then [] else cs)"
          "map res_index cs = [?m ..< next_print_index q]"
        and x: "x \<in> set (map snd (result_buffer ?q1)) \<union> set rs" "\<not> printable x"
        by blast
      have B1: "ordered_result_printer cb p (r # rs) = Blocked_in_get q"
        unfolding run by (rule q(1))
      have B2: "?n \<le> next_print_index q" "next_print_index q < ?N"
        using nm q(2,3) tq by simp_all
      have B3: "printed q = printed p @ (cs1 @ cs)" using q(4) flushedD(2)[OF fq] by (simp add: f1)
      have B4: "called q = called p @ (if cb = None then [] else cs1 @ cs)"
        using q(5) flushedD(3)[OF fq] by (simp add: f1)
      have "[?n ..< next_print_index q] = [?n ..< ?m] @ [?m ..< next_print_index q]"
        using nm q(2) by (metis le_Suc_ex upt_add_eq_append)
      then have B5: "map res_index (cs1 @ cs) = [?n ..< next_print_index q]"
        using q(6) flushedD(4)[OF fq] by (simp add: f1)
      have B: "\<exists>q cs. ordered_result_printer cb p (r # rs) = Blocked_in_get q \<and>
             ?n \<le> next_print_index q \<and> next_print_index q < ?N \<and>
             printed q = printed p @ cs \<and>
             called q = called p @ (if cb = None then [] else cs) \<and>
             map res_index cs = [?n ..< next_print_index q]"
        by (rule exI[of _ q], rule exI[of _ "cs1 @ cs"]) (simp only: B1 B2 B3 B4 B5 simp_thms)
      have "x \<in> set (map snd (result_buffer p)) \<union> set (r # rs)" using x(1) vals by auto
      then have "\<exists>x \<in> set (map snd (result_buffer p)) \<union> set (r # rs). \<not> printable x"
        using x(2) by blast
      with B show ?thesis by blast
    next
      assume "\<exists>q cs. ordered_result_printer cb ?q1 rs = Finished q \<and>
           next_print_index q = total_references ?q1 \<and>
           total_references q = total_references ?q1 \<and>
           max_workers q = max_workers ?q1 \<and>
           printed q = printed ?q1 @ cs \<and>
           called q = called ?q1 @ (if cb = None then [] else cs) \<and>
           map res_index cs = [next_print_index ?q1 ..< total_references ?q1] \<and>
           mset cs = mset (map snd (result_buffer ?q1)) + mset rs \<and>
           stats q = foldl (\<lambda>s r. update_stats r s) (stats ?q1) rs \<and>
           list_all printable cs"
      then obtain q cs where
        q: "ordered_result_printer cb ?q1 rs = Finished q"
          "next_print_index q = total_references ?q1"
          "total_references q = total_references ?q1"
          "max_workers q = max_workers ?q1"
          "printed q = printed ?q1 @ cs"
          "called q = called ?q1 @ (if cb = None then [] else cs)"
          "map res_index cs = [?m ..< total_references ?q1]"
          "mset cs = mset (map snd (result_buffer ?q1)) + mset rs"
          "stats q = foldl (\<lambda>s r. update_stats r s) (stats ?q1) rs"
          "list_all printable cs"
        by blast
      have run': "ordered_result_printer cb p (r # rs) = Finished q"
        unfolding run by (rule q(1))
      have "[?n ..< ?N] = [?n ..< ?m] @ [?m ..< ?N]"
        using nm mN by (metis le_Suc_ex upt_add_eq_append)
      then have C1: "map res_index (cs1 @ cs) = [?n ..< ?N]"
        using q(7) flushedD(4)[OF fq] tq by (simp add: f1)
      have C2: "mset (cs1 @ cs) = mset (map snd (result_buffer p)) + mset (r # rs)"
        using q(8) flushedD(5)[OF fq] by (simp add: b1)
      have C3: "stats q = foldl (\<lambda>s r. update_stats r s) (stats p) (r # rs)"
        using q(9) flushedD(11)[OF fq] by (simp add: f1)
      have C4: "max_workers q = max_workers p" using q(4) flushedD(12)[OF fq] by (simp add: f1)
      have C5: "printed q = printed p @ (cs1 @ cs)" using q(5) flushedD(2)[OF fq] by (simp add: f1)
      have C6: "called q = called p @ (if cb = None then [] else cs1 @ cs)"
        using q(6) flushedD(3)[OF fq] by (simp add: f1)
      have C7: "list_all printable (cs1 @ cs)" using q(10) flushedD(13)[OF fq] by simp
      have N1: "next_print_index q = ?N" "total_references q = ?N" using q(2,3) tq by simp_all
      show ?thesis
        by (rule disjI1, rule exI[of _ q], rule exI[of _ "cs1 @ cs"])
           (simp only: run' N1 C1 C2 C3 C4 C5 C6 C7 simp_thms)
    qed
  qed
qed

subsection \<open>Every work item yields exactly one result\<close>

fun queued_items :: "'a option list \<Rightarrow> 'a list" where
  "queued_items [] = []"
| "queued_items (None # q) = queued_items q"
| "queued_items (Some x # q) = x # queued_items q"

fun held_item :: "'s worker \<Rightarrow> 's ReferenceWorkItem multiset" where
  "held_item (Holding item) = {#item#}"
| "held_item _ = {#}"

definition held_items :: "('s, 'v) pool \<Rightarrow> 's ReferenceWorkItem multiset" where
  "held_items pl = (\<Sum>w \<in># mset (workers pl). held_item w)"

definition live :: "'s worker list \<Rightarrow> nat" where
  "live ws = sum_list (map (\<lambda>w. if w = Exited then 0 else 1) ws)"

text \<open>
  The results a pool has produced together with those it still owes: one for every item
  that is held by a worker or waits in the queue.
\<close>

definition owed ::
  "('s, 'v) checker \<Rightarrow> (nat \<Rightarrow> rat) \<Rightarrow> ('s, 'v) pool \<Rightarrow> 'v ReferenceResult multiset" where
  "owed verify took pl =
     mset (result_queue pl) + image_mset (worker_result verify took) (held_items pl) +
     image_mset (worker_result verify took) (mset (queued_items (work_queue pl)))"

text \<open>
  The work queue holds the remaining items followed by one sentinel for every worker
  that is still in its loop, and no worker leaves while an item remains.
\<close>

definition pool_ok :: "('s, 'v) pool \<Rightarrow> bool" where
  "pool_ok pl =
     (work_queue pl = map Some (queued_items (work_queue pl)) @ replicate (live (workers pl)) None \<and>
      (queued_items (work_queue pl) = [] \<or> live (workers pl) = length (workers pl)))"

lemma queued_items_sentinels [simp]: "queued_items (replicate k None) = []"
  by (induction k) auto

lemma queued_items_append_items [simp]: "queued_items (map Some xs @ q) = xs @ queued_items q"
  by (induction xs) auto

lemma held_items_update:
  assumes "w < length ws"
  shows "(\<Sum>x \<in># mset (ws[w := y]). held_item x) + held_item (ws ! w) =
         (\<Sum>x \<in># mset ws. held_item x) + held_item y"
proof -
  have "ws ! w \<in># mset ws" using assms by simp
  then have "mset ws = add_mset (ws ! w) (mset ws - {#ws ! w#})" by simp
  then have "(\<Sum>x \<in># mset ws. held_item x) =
      held_item (ws ! w) + (\<Sum>x \<in># mset ws - {#ws ! w#}. held_item x)"
    by (metis image_mset_add_mset sum_mset.add_mset)
  then show ?thesis using assms by (simp add: mset_update)
qed

lemma live_update:
  assumes "w < length ws"
  shows "live (ws[w := y]) + (if ws ! w = Exited then 0 else 1) =
         live ws + (if y = Exited then 0 else 1)"
proof -
  let ?f = "\<lambda>w::'a worker. if w = Exited then 0 else (1::nat)"
  have w: "w < length (map ?f ws)" using assms by simp
  have mem: "map ?f ws ! w \<le> sum_list (map ?f ws)"
    using nth_mem[OF w] by (auto intro: member_le_sum_list)
  have "sum_list ((map ?f ws)[w := ?f y]) = sum_list (map ?f ws) + ?f y - map ?f ws ! w"
    using w by (rule sum_list_update)
  then have "sum_list ((map ?f ws)[w := ?f y]) + map ?f ws ! w = sum_list (map ?f ws) + ?f y"
    using mem by linarith
  then show ?thesis using assms by (simp add: live_def map_update)
qed

lemma live_le: "live ws \<le> length ws"
  unfolding live_def by (induction ws) auto

lemma owed_step: "owed verify took (worker_loop_step verify took pl w) = owed verify took pl"
proof (cases "w < length (workers pl)")
  case False
  then show ?thesis by (simp add: worker_loop_step_def)
next
  case True
  note upd = held_items_update[OF True]
  show ?thesis
  proof (cases "workers pl ! w")
    case Exited
    then show ?thesis using True by (simp add: worker_loop_step_def)
  next
    case (Holding item)
    have "held_items pl = add_mset item (\<Sum>x \<in># mset ((workers pl)[w := Waiting]). held_item x)"
      using upd[of Waiting] Holding by (simp add: held_items_def)
    then show ?thesis using True Holding
      by (simp add: worker_loop_step_def owed_def held_items_def)
  next
    case Waiting
    show ?thesis
    proof (cases "work_queue pl")
      case Nil
      then show ?thesis using True Waiting by (simp add: worker_loop_step_def)
    next
      case (Cons x q)
      show ?thesis
      proof (cases x)
        case None
        have "(\<Sum>x \<in># mset ((workers pl)[w := Exited]). held_item x) = held_items pl"
          using upd[of Exited] Waiting by (simp add: held_items_def)
        then show ?thesis using True Waiting Cons None
          by (simp add: worker_loop_step_def owed_def held_items_def)
      next
        case (Some item)
        have "(\<Sum>x \<in># mset ((workers pl)[w := Holding item]). held_item x) =
              add_mset item (held_items pl)"
          using upd[of "Holding item"] Waiting by (simp add: held_items_def)
        then show ?thesis using True Waiting Cons Some
          by (simp add: worker_loop_step_def owed_def held_items_def)
      qed
    qed
  qed
qed

lemma length_workers_step [simp]:
  "length (workers (worker_loop_step verify took pl w)) = length (workers pl)"
  by (simp add: worker_loop_step_def split: worker.splits list.splits option.splits)

lemma queue_head_None:
  assumes "q = map Some xs @ replicate k None" "q = None # q'"
  shows "xs = [] \<and> 0 < k \<and> q' = replicate (k - 1) None"
  using assms by (cases xs; cases k) auto

lemma pool_ok_step: "pool_ok pl \<Longrightarrow> pool_ok (worker_loop_step verify took pl w)"
proof (cases "w < length (workers pl)")
  case False
  then show "pool_ok pl \<Longrightarrow> ?thesis" by (simp add: worker_loop_step_def)
next
  case True
  assume ok: "pool_ok pl"
  note lv = live_update[OF True]
  show ?thesis
  proof (cases "workers pl ! w")
    case Exited
    then show ?thesis using True ok by (simp add: worker_loop_step_def)
  next
    case (Holding item)
    have "live ((workers pl)[w := Waiting]) = live (workers pl)"
      using lv[of Waiting] Holding by simp
    then show ?thesis using True Holding ok
      by (simp add: worker_loop_step_def pool_ok_def)
  next
    case Waiting
    show ?thesis
    proof (cases "work_queue pl")
      case Nil
      then show ?thesis using True Waiting ok by (simp add: worker_loop_step_def)
    next
      case (Cons x q)
      show ?thesis
      proof (cases x)
        case None
        have hd: "queued_items (work_queue pl) = [] \<and> 0 < live (workers pl) \<and>
            q = replicate (live (workers pl) - 1) None"
        proof (rule queue_head_None)
          show "work_queue pl =
              map Some (queued_items (work_queue pl)) @ replicate (live (workers pl)) None"
            using ok by (simp add: pool_ok_def)
          show "work_queue pl = None # q" using Cons None by simp
        qed
        have l: "live ((workers pl)[w := Exited]) = live (workers pl) - 1"
          using lv[of Exited] Waiting by simp
        have q: "q = replicate (live (workers pl) - 1) None" using hd by simp
        have "pool_ok (pl\<lparr>work_queue := q, workers := (workers pl)[w := Exited]\<rparr>)"
          unfolding pool_ok_def by (subst (1 2 3) q) (simp add: l)
        then show ?thesis using True Waiting Cons None
          by (simp add: worker_loop_step_def)
      next
        case (Some item)
        have l: "live ((workers pl)[w := Holding item]) = live (workers pl)"
          using lv[of "Holding item"] Waiting by simp
        have "queued_items (work_queue pl) \<noteq> []" using Cons Some by simp
        then have full: "live (workers pl) = length (workers pl)"
          using ok unfolding pool_ok_def by blast
        have "work_queue pl =
            map Some (queued_items (work_queue pl)) @ replicate (live (workers pl)) None"
          using ok unfolding pool_ok_def by blast
        then have "Some item # q =
            Some item # (map Some (queued_items q) @ replicate (live (workers pl)) None)"
          unfolding Cons Some by simp
        then have qeq: "q = map Some (queued_items q) @ replicate (live (workers pl)) None"
          by (simp only: list.inject simp_thms)
        have "pool_ok (pl\<lparr>work_queue := q, workers := (workers pl)[w := Holding item]\<rparr>)"
          unfolding pool_ok_def using qeq full by (simp add: l)
        then show ?thesis using True Waiting Cons Some
          by (simp add: worker_loop_step_def)
      qed
    qed
  qed
qed

lemma run_workers_Cons [simp]:
  "run_workers verify took (w # sched) pl =
     run_workers verify took sched (worker_loop_step verify took pl w)"
  by (simp add: run_workers_def)

lemma run_workers_Nil [simp]: "run_workers verify took [] pl = pl"
  by (simp add: run_workers_def)

lemma run_workers_invariant:
  "pool_ok pl \<Longrightarrow>
   pool_ok (run_workers verify took sched pl) \<and>
   owed verify took (run_workers verify took sched pl) = owed verify took pl \<and>
   length (workers (run_workers verify took sched pl)) = length (workers pl)"
  by (induction sched arbitrary: pl) (simp_all add: pool_ok_step owed_step)

lemma all_exited_live: "all_exited pl \<longleftrightarrow> live (workers pl) = 0"
  unfolding all_exited_def live_def by (induction "workers pl" arbitrary: pl) (auto simp: list_all_iff)

lemma held_size_update:
  assumes "w < length (workers pl)"
  shows "size (\<Sum>x \<in># mset ((workers pl)[w := y]). held_item x) + size (held_item (workers pl ! w)) =
         size (held_items pl) + size (held_item y)"
proof -
  have "size ((\<Sum>x \<in># mset ((workers pl)[w := y]). held_item x) + held_item (workers pl ! w)) =
        size ((\<Sum>x \<in># mset (workers pl). held_item x) + held_item y)"
    using held_items_update[OF assms, of y] by simp
  then show ?thesis by (simp add: held_items_def)
qed

lemma live_pos_ex:
  assumes "0 < live ws"
  shows "\<exists>w < length ws. ws ! w \<noteq> Exited"
proof (rule ccontr)
  assume "\<not> ?thesis"
  then have "\<forall>x \<in> set ws. x = Exited" by (auto simp: in_set_conv_nth)
  then have "live ws = 0" by (simp add: live_def)
  with assms show False by simp
qed

lemma pool_can_drain:
  "pool_ok pl \<Longrightarrow> \<exists>sched. all_exited (run_workers verify took sched pl)"
proof (induction "2 * length (work_queue pl) + size (held_items pl)" arbitrary: pl rule: less_induct)
  case less
  show ?case
  proof (cases "live (workers pl) = 0")
    case True
    then have "all_exited (run_workers verify took [] pl)" by (simp add: all_exited_live)
    then show ?thesis ..
  next
    case False
    then obtain w where w: "w < length (workers pl)" "workers pl ! w \<noteq> Exited"
      using live_pos_ex by blast
    let ?pl' = "worker_loop_step verify took pl w"
    have dec: "2 * length (work_queue ?pl') + size (held_items ?pl') <
               2 * length (work_queue pl) + size (held_items pl)"
    proof (cases "workers pl ! w")
      case Exited
      with w show ?thesis by simp
    next
      case (Holding item)
      then show ?thesis
        using w held_size_update[OF w(1), of Waiting]
        by (simp add: worker_loop_step_def held_items_def)
    next
      case Waiting
      have "work_queue pl =
          map Some (queued_items (work_queue pl)) @ replicate (live (workers pl)) None"
        using less.prems unfolding pool_ok_def by blast
      then have ne: "work_queue pl \<noteq> []" using False by (cases "live (workers pl)") auto
      then obtain x q where q: "work_queue pl = x # q" by (cases "work_queue pl") auto
      show ?thesis
      proof (cases x)
        case None
        then show ?thesis
          using w Waiting q held_size_update[OF w(1), of Exited]
          by (simp add: worker_loop_step_def held_items_def)
      next
        case (Some item)
        then show ?thesis
          using w Waiting q held_size_update[OF w(1), of "Holding item"]
          by (simp add: worker_loop_step_def held_items_def)
      qed
    qed
    have "pool_ok ?pl'" using less.prems by (rule pool_ok_step)
    from less.hyps[OF dec this] obtain sched where
      "all_exited (run_workers verify took sched ?pl')" ..
    then have "all_exited (run_workers verify took (w # sched) pl)" by simp
    then show ?thesis ..
  qed
qed

lemma length_workers_run [simp]:
  "length (workers (run_workers verify took sched pl)) = length (workers pl)"
  by (induction sched arbitrary: pl) simp_all

lemma initial_pool_ok: "pool_ok (initial_pool mw items)"
proof -
  have "live (replicate mw (Waiting :: 'a worker)) = mw"
    by (induction mw) (simp_all add: live_def)
  then show ?thesis by (simp add: pool_ok_def initial_pool_def)
qed

lemma owed_initial:
  "owed verify took (initial_pool mw items) = mset (map (worker_result verify took) items)"
proof -
  have "(\<Sum>x \<in># mset (replicate mw (Waiting :: 'a worker)). held_item x) = {#}"
    by (induction mw) simp_all
  then show ?thesis by (simp add: owed_def initial_pool_def held_items_def)
qed

lemma all_exited_held: "\<forall>x \<in> set ws. x = Exited \<Longrightarrow> (\<Sum>x \<in># mset ws. held_item x) = {#}"
  by (induction ws) auto

lemma owed_final:
  assumes "pool_ok pl" "all_exited pl" "workers pl \<noteq> []"
  shows "owed verify took pl = mset (result_queue pl)"
proof -
  have l0: "live (workers pl) = 0" using assms(2) by (simp add: all_exited_live)
  then have "queued_items (work_queue pl) = []"
    using assms(1,3) unfolding pool_ok_def by auto
  moreover have "\<forall>x \<in> set (workers pl). x = Exited"
    using assms(2) by (simp add: all_exited_def list_all_iff)
  then have "held_items pl = {#}"
    unfolding held_items_def by (rule all_exited_held)
  ultimately show ?thesis by (simp add: owed_def)
qed

lemma results_complete:
  assumes "0 < mw" "all_exited (run_workers verify took sched (initial_pool mw items))"
  shows "mset (result_queue (run_workers verify took sched (initial_pool mw items))) =
         mset (map (worker_result verify took) items)"
proof -
  let ?pl = "run_workers verify took sched (initial_pool mw items)"
  have inv: "pool_ok ?pl" "owed verify took ?pl = owed verify took (initial_pool mw items)"
    using run_workers_invariant[OF initial_pool_ok] by blast+
  have len: "length (workers ?pl) = mw" by (simp add: initial_pool_def)
  have "workers ?pl \<noteq> []"
  proof
    assume e: "workers ?pl = []"
    have "length (workers ?pl) = 0" unfolding e by simp
    with len assms(1) show False by linarith
  qed
  then show ?thesis using owed_final[OF inv(1) assms(2)] inv(2) by (simp add: owed_initial)
qed

lemma res_index_worker_result [simp]: "res_index (worker_result verify took item) = index item"
  by (simp add: worker_result_def split: sum.splits prod.splits)

lemma index_work_items: "map index (work_items now src bibliography) = [0..<length bibliography]"
  by (simp add: work_items_def comp_def case_prod_beta map_fst_enumerate)

lemma length_work_items [simp]: "length (work_items now src bibliography) = length bibliography"
  by (simp add: work_items_def)

lemma same_keys_same_list:
  assumes "mset xs = mset ys" "map f xs = map f ys" "distinct (map f xs)"
  shows "xs = ys"
proof -
  have "set ys = set xs" using assms(1) by (metis mset_eq_setD)
  moreover have "inj_on f (set xs)" using assms(3) by (simp add: distinct_map)
  ultimately have "inj_on f (set xs \<union> set ys)" by simp
  then show ?thesis using assms(2) by (simp add: inj_on_map_eq_map)
qed

text \<open>The results of a bibliography in citation order, one per reference.\<close>

definition expected_results ::
  "('s, 'v) checker \<Rightarrow> (nat \<Rightarrow> rat) \<Rightarrow> (nat \<Rightarrow> rat) \<Rightarrow> 's \<Rightarrow> ref_dict list \<Rightarrow> 'v ReferenceResult list" where
  "expected_results verify now took src bibliography =
     map (worker_result verify took) (work_items now src bibliography)"

lemma index_expected_results:
  "map res_index (expected_results verify now took src bibliography) = [0..<length bibliography]"
  by (simp add: expected_results_def comp_def index_work_items)


text \<open>
  Whether a result prints depends on its reference only, and a worker copies the
  reference of the work item into the result.
\<close>

definition reference_prints :: "ref_dict \<Rightarrow> bool" where
  "reference_prints ref =
     (joinable (dict_get ref ''authors'' (PList [])) \<and> is_str (dict_get ref ''raw_text'' (PStr [])))"

lemma printable_iff: "printable r = reference_prints (res_reference r)"
  by (simp add: printable_def print_reference_result_def reference_prints_def Let_def)

lemma res_reference_worker_result [simp]:
  "res_reference (worker_result verify took item) = reference item"
  by (simp add: worker_result_def split: sum.splits prod.splits)

lemma reference_work_items: "map reference (work_items now src bibliography) = bibliography"
  by (simp add: work_items_def comp_def case_prod_beta map_snd_enumerate)

lemma printable_expected_results:
  "list_all printable (expected_results verify now took src bibliography) =
   list_all reference_prints bibliography"
proof -
  have "list_all printable (expected_results verify now took src bibliography) =
        list_all reference_prints (map reference (work_items now src bibliography))"
    by (simp add: expected_results_def list_all_iff printable_iff)
  then show ?thesis by (simp only: reference_work_items)
qed

text \<open>The state in which \<open>verify_references_parallel\<close> starts the printer.\<close>

definition printer_start :: "'v processor \<Rightarrow> nat \<Rightarrow> 'v processor" where
  "printer_start p n =
     p\<lparr>total_references := n, next_print_index := 0, completed_count := 0, result_buffer := []\<rparr>"

lemma printer_on_results:
  assumes idx: "mset (map res_index rs) = mset [0..<n]"
  shows "(\<exists>q cs. ordered_result_printer cb (printer_start p n) rs = Finished q \<and>
            printed q = printed p @ cs \<and>
            called q = called p @ (if cb = None then [] else cs) \<and>
            map res_index cs = [0..<n] \<and>
            mset cs = mset rs \<and>
            stats q = foldl (\<lambda>s r. update_stats r s) (stats p) rs \<and>
            list_all printable cs) \<or>
         ((\<exists>q cs. ordered_result_printer cb (printer_start p n) rs = Blocked_in_get q \<and>
            printed q = printed p @ cs \<and>
            called q = called p @ (if cb = None then [] else cs) \<and>
            map res_index cs = [0..<length cs] \<and> length cs < n) \<and>
          (\<exists>r \<in> set rs. \<not> printable r))"
proof -
  let ?p1 = "printer_start p n"
  have d: "distinct (map res_index rs)"
    using idx by (metis distinct_upt mset_eq_imp_distinct_iff)
  have st: "set (map res_index rs) = {0..<n}"
    using idx by (metis mset_eq_setD set_upt)
  have f: "next_print_index ?p1 = 0" "total_references ?p1 = n" "result_buffer ?p1 = []"
    "printed ?p1 = printed p" "called ?p1 = called p" "stats ?p1 = stats p"
    by (simp_all add: printer_start_def)
  have "(\<exists>q cs. ordered_result_printer cb ?p1 rs = Finished q \<and>
           next_print_index q = total_references ?p1 \<and>
           total_references q = total_references ?p1 \<and>
           max_workers q = max_workers ?p1 \<and>
           printed q = printed ?p1 @ cs \<and>
           called q = called ?p1 @ (if cb = None then [] else cs) \<and>
           map res_index cs = [next_print_index ?p1 ..< total_references ?p1] \<and>
           mset cs = mset (map snd (result_buffer ?p1)) + mset rs \<and>
           stats q = foldl (\<lambda>s r. update_stats r s) (stats ?p1) rs \<and>
           list_all printable cs) \<or>
         ((\<exists>q cs. ordered_result_printer cb ?p1 rs = Blocked_in_get q \<and>
             next_print_index ?p1 \<le> next_print_index q \<and>
             next_print_index q < total_references ?p1 \<and>
             printed q = printed ?p1 @ cs \<and>
             called q = called ?p1 @ (if cb = None then [] else cs) \<and>
             map res_index cs = [next_print_index ?p1 ..< next_print_index q]) \<and>
          (\<exists>r \<in> set (map snd (result_buffer ?p1)) \<union> set rs. \<not> printable r))"
    by (rule printer_general) (use d st in \<open>simp_all add: buffer_ok_def f\<close>)
  then show ?thesis
  proof (elim disjE)
    assume "\<exists>q cs. ordered_result_printer cb ?p1 rs = Finished q \<and>
           next_print_index q = total_references ?p1 \<and>
           total_references q = total_references ?p1 \<and>
           max_workers q = max_workers ?p1 \<and>
           printed q = printed ?p1 @ cs \<and>
           called q = called ?p1 @ (if cb = None then [] else cs) \<and>
           map res_index cs = [next_print_index ?p1 ..< total_references ?p1] \<and>
           mset cs = mset (map snd (result_buffer ?p1)) + mset rs \<and>
           stats q = foldl (\<lambda>s r. update_stats r s) (stats ?p1) rs \<and>
           list_all printable cs"
    then obtain q cs where q: "ordered_result_printer cb ?p1 rs = Finished q"
        "printed q = printed ?p1 @ cs"
        "called q = called ?p1 @ (if cb = None then [] else cs)"
        "map res_index cs = [next_print_index ?p1 ..< total_references ?p1]"
        "mset cs = mset (map snd (result_buffer ?p1)) + mset rs"
        "stats q = foldl (\<lambda>s r. update_stats r s) (stats ?p1) rs"
        "list_all printable cs"
      by blast
    have "ordered_result_printer cb ?p1 rs = Finished q \<and>
            printed q = printed p @ cs \<and>
            called q = called p @ (if cb = None then [] else cs) \<and>
            map res_index cs = [0..<n] \<and>
            mset cs = mset rs \<and>
            stats q = foldl (\<lambda>s r. update_stats r s) (stats p) rs \<and>
            list_all printable cs"
      using q unfolding f by simp
    then show ?thesis by blast
  next
    assume "(\<exists>q cs. ordered_result_printer cb ?p1 rs = Blocked_in_get q \<and>
             next_print_index ?p1 \<le> next_print_index q \<and>
             next_print_index q < total_references ?p1 \<and>
             printed q = printed ?p1 @ cs \<and>
             called q = called ?p1 @ (if cb = None then [] else cs) \<and>
             map res_index cs = [next_print_index ?p1 ..< next_print_index q]) \<and>
          (\<exists>r \<in> set (map snd (result_buffer ?p1)) \<union> set rs. \<not> printable r)"
    then obtain q cs x where q: "ordered_result_printer cb ?p1 rs = Blocked_in_get q"
        "next_print_index q < total_references ?p1"
        "printed q = printed ?p1 @ cs"
        "called q = called ?p1 @ (if cb = None then [] else cs)"
        "map res_index cs = [next_print_index ?p1 ..< next_print_index q]"
      and x: "x \<in> set (map snd (result_buffer ?p1)) \<union> set rs" "\<not> printable x"
      by blast
    have "length (map res_index cs) = next_print_index q" unfolding q(5) f by simp
    then have len: "length cs = next_print_index q" by simp
    have "ordered_result_printer cb ?p1 rs = Blocked_in_get q \<and>
            printed q = printed p @ cs \<and>
            called q = called p @ (if cb = None then [] else cs) \<and>
            map res_index cs = [0..<length cs] \<and> length cs < n"
      using q unfolding f len by simp
    moreover have "\<exists>r \<in> set rs. \<not> printable r" using x unfolding f by auto
    ultimately show ?thesis by blast
  qed
qed

lemma results_indices:
  assumes "0 < mw" "all_exited (run_workers verify took sched (initial_pool mw (work_items now src bibliography)))"
  shows "mset (result_queue (run_workers verify took sched
            (initial_pool mw (work_items now src bibliography)))) =
         mset (expected_results verify now took src bibliography)"
    and "mset (map res_index (result_queue (run_workers verify took sched
            (initial_pool mw (work_items now src bibliography))))) =
         mset [0..<length bibliography]"
proof -
  show c: "mset (result_queue (run_workers verify took sched
            (initial_pool mw (work_items now src bibliography)))) =
         mset (expected_results verify now took src bibliography)"
    unfolding expected_results_def by (rule results_complete[OF assms])
  show "mset (map res_index (result_queue (run_workers verify took sched
            (initial_pool mw (work_items now src bibliography))))) =
         mset [0..<length bibliography]"
    using c by (metis index_expected_results mset_map)
qed

lemma verify_references_parallel_run:
  assumes "bibliography \<noteq> []" "0 < max_workers p"
    and "all_exited (run_workers verify took sched
           (initial_pool (max_workers p) (work_items now src bibliography)))"
  shows "verify_references_parallel verify now took sched p src bibliography cb =
           (case ordered_result_printer cb (printer_start p (length bibliography))
                   (result_queue (run_workers verify took sched
                      (initial_pool (max_workers p) (work_items now src bibliography)))) of
              Blocked_in_get p2 \<Rightarrow> Blocked p2
            | Finished p2 \<Rightarrow> Returned p2 (get_stats p2))"
  using assms by (simp add: verify_references_parallel_def Let_def printer_start_def)

lemma parallel_run:
  assumes mw: "0 < max_workers p"
    and run: "verify_references_parallel verify now took sched p src bibliography cb = Returned q s"
  shows "s = get_stats q \<and>
         printed q = printed p @ expected_results verify now took src bibliography \<and>
         called q = called p @
           (if cb = None then [] else expected_results verify now took src bibliography) \<and>
         (\<exists>rs. mset rs = mset (expected_results verify now took src bibliography) \<and>
               stats q = foldl (\<lambda>s r. update_stats r s) (stats p) rs) \<and>
         list_all reference_prints bibliography"
proof (cases "bibliography = []")
  case True
  then have "q = p" "s = get_stats p"
    using run by (auto simp: verify_references_parallel_def)
  moreover have "\<exists>rs. mset rs = mset ([] :: 'b ReferenceResult list) \<and>
      stats p = foldl (\<lambda>s r. update_stats r s) (stats p) rs"
    by (rule exI[of _ "[]"]) simp
  ultimately show ?thesis using True by (simp add: expected_results_def work_items_def)
next
  case False
  let ?items = "work_items now src bibliography"
  let ?pl = "run_workers verify took sched (initial_pool (max_workers p) ?items)"
  let ?p1 = "printer_start p (length bibliography)"
  let ?E = "expected_results verify now took src bibliography"
  have ex: "all_exited ?pl"
    using run False mw by (auto simp: verify_references_parallel_def Let_def split: if_splits)
  note complete = results_indices[OF mw ex]
  have eq: "(case ordered_result_printer cb ?p1 (result_queue ?pl) of
              Blocked_in_get p2 \<Rightarrow> Blocked p2
            | Finished p2 \<Rightarrow> Returned p2 (get_stats p2)) = Returned q s"
    using verify_references_parallel_run[OF False mw ex, of cb] run by simp
  then have fin: "ordered_result_printer cb ?p1 (result_queue ?pl) = Finished q" and s: "s = get_stats q"
    by (auto split: printer_run.splits)
  from printer_on_results[OF complete(2), of cb p] fin
  obtain cs where cs: "printed q = printed p @ cs"
      "called q = called p @ (if cb = None then [] else cs)"
      "map res_index cs = [0..<length bibliography]"
      "mset cs = mset (result_queue ?pl)"
      "stats q = foldl (\<lambda>s r. update_stats r s) (stats p) (result_queue ?pl)"
      "list_all printable cs"
    by auto
  have "cs = ?E"
  proof (rule same_keys_same_list)
    show "mset cs = mset ?E" using cs(4) complete(1) by simp
    show "map res_index cs = map res_index ?E" using cs(3) by (simp add: index_expected_results)
    show "distinct (map res_index cs)" using cs(3) by simp
  qed
  moreover have "list_all reference_prints bibliography"
    using cs(6) unfolding \<open>cs = ?E\<close> by (simp only: printable_expected_results)
  ultimately show ?thesis using s cs(1,2,5) complete(1) by auto
qed

lemma parallel_run_blocked:
  assumes mw: "0 < max_workers p"
    and run: "verify_references_parallel verify now took sched p src bibliography cb = Blocked q"
  shows "\<exists>cs. printed q = printed p @ cs \<and>
              called q = called p @ (if cb = None then [] else cs) \<and>
              map res_index cs = [0..<length cs] \<and> length cs < length bibliography"
proof -
  let ?items = "work_items now src bibliography"
  let ?pl = "run_workers verify took sched (initial_pool (max_workers p) ?items)"
  let ?p1 = "printer_start p (length bibliography)"
  have ne: "bibliography \<noteq> []"
    using run by (auto simp: verify_references_parallel_def)
  have ex: "all_exited ?pl"
    using run ne mw by (auto simp: verify_references_parallel_def Let_def split: if_splits)
  note complete = results_indices[OF mw ex]
  have eq: "(case ordered_result_printer cb ?p1 (result_queue ?pl) of
              Blocked_in_get p2 \<Rightarrow> Blocked p2
            | Finished p2 \<Rightarrow> Returned p2 (get_stats p2)) = Blocked q"
    using verify_references_parallel_run[OF ne mw ex, of cb] run by simp
  then have bl: "ordered_result_printer cb ?p1 (result_queue ?pl) = Blocked_in_get q"
    by (auto split: printer_run.splits)
  from printer_on_results[OF complete(2), of cb p] bl
  show ?thesis by auto
qed

lemma parallel_run_not_blocked:
  assumes mw: "0 < max_workers p" and pr: "list_all reference_prints bibliography"
  shows "verify_references_parallel verify now took sched p src bibliography cb \<noteq> Blocked q"
proof
  assume run: "verify_references_parallel verify now took sched p src bibliography cb = Blocked q"
  let ?items = "work_items now src bibliography"
  let ?pl = "run_workers verify took sched (initial_pool (max_workers p) ?items)"
  let ?p1 = "printer_start p (length bibliography)"
  have ne: "bibliography \<noteq> []"
    using run by (auto simp: verify_references_parallel_def)
  have ex: "all_exited ?pl"
    using run ne mw by (auto simp: verify_references_parallel_def Let_def split: if_splits)
  note complete = results_indices[OF mw ex]
  have "(case ordered_result_printer cb ?p1 (result_queue ?pl) of
              Blocked_in_get p2 \<Rightarrow> Blocked p2
            | Finished p2 \<Rightarrow> Returned p2 (get_stats p2)) = Blocked q"
    using verify_references_parallel_run[OF ne mw ex, of cb] run by simp
  then have bl: "ordered_result_printer cb ?p1 (result_queue ?pl) = Blocked_in_get q"
    by (auto split: printer_run.splits)
  from printer_on_results[OF complete(2), of cb p] bl
  obtain r where r: "r \<in> set (result_queue ?pl)" "\<not> printable r" by auto
  have "set (result_queue ?pl) = set (expected_results verify now took src bibliography)"
    using complete(1) by (rule mset_eq_setD)
  moreover have "list_all printable (expected_results verify now took src bibliography)"
    using pr by (simp only: printable_expected_results)
  ultimately have "printable r" using r(1) by (simp add: list_all_iff)
  with r(2) show False by simp
qed

lemma parallel_run_drains:
  assumes mw: "0 < max_workers p"
  shows "\<exists>sched. (\<exists>q s. verify_references_parallel verify now took sched p src bibliography cb = Returned q s) \<or>
                 (\<exists>q. verify_references_parallel verify now took sched p src bibliography cb = Blocked q)"
proof -
  obtain sched where ex: "all_exited (run_workers verify took sched
        (initial_pool (max_workers p) (work_items now src bibliography)))"
    using pool_can_drain[OF initial_pool_ok] by blast
  have "verify_references_parallel verify now took sched p src bibliography cb \<noteq> Unfinished"
    using ex mw by (auto simp: verify_references_parallel_def Let_def split: printer_run.splits)
  moreover have "verify_references_parallel verify now took sched p src bibliography cb \<noteq> Raised"
    using mw by (auto simp: verify_references_parallel_def Let_def split: printer_run.splits)
  ultimately show ?thesis
    by (cases "verify_references_parallel verify now took sched p src bibliography cb") auto
qed

lemma parallel_run_returns:
  assumes mw: "0 < max_workers p" and pr: "list_all reference_prints bibliography"
  shows "\<exists>sched q s. verify_references_parallel verify now took sched p src bibliography cb = Returned q s"
proof -
  obtain sched where d:
    "(\<exists>q s. verify_references_parallel verify now took sched p src bibliography cb = Returned q s) \<or>
     (\<exists>q. verify_references_parallel verify now took sched p src bibliography cb = Blocked q)"
    using parallel_run_drains[OF mw, where verify = verify and now = now and took = took
        and src = src and bibliography = bibliography and cb = cb]
    by (elim exE) (rule that)
  have "\<And>q. verify_references_parallel verify now took sched p src bibliography cb \<noteq> Blocked q"
    by (rule parallel_run_not_blocked[OF mw pr])
  with d have "\<exists>q s. verify_references_parallel verify now took sched p src bibliography cb = Returned q s"
    by simp
  then show ?thesis by (rule exI)
qed

subsection \<open>What a call of \<open>verify_references_parallel\<close> delivers\<close>

definition finding_count :: "'v ReferenceResult \<Rightarrow> nat" where
  "finding_count r = (case errors r of None \<Rightarrow> 0 | Some es \<Rightarrow> length es)"

lemma total_errors_update_stats:
  "total_errors (update_stats r s) = total_errors s + finding_count r"
  by (simp add: update_stats_def finding_count_def Let_def split: option.splits)

lemma total_errors_foldl:
  "total_errors (foldl (\<lambda>s r. update_stats r s) s rs) = total_errors s + sum_list (map finding_count rs)"
  by (induction rs arbitrary: s) (simp_all add: total_errors_update_stats)

lemma sum_list_mset_cong:
  fixes f :: "'a \<Rightarrow> nat"
  assumes "mset xs = mset ys"
  shows "sum_list (map f xs) = sum_list (map f ys)"
proof -
  have "sum_mset (mset (map f xs)) = sum_mset (mset (map f ys))"
    using assms by (metis mset_map)
  then show ?thesis by (simp only: sum_mset_sum_list)
qed

lemma length_expected_results [simp]:
  "length (expected_results verify now took src bibliography) = length bibliography"
  by (simp add: expected_results_def)

lemma nth_work_items:
  "i < length bibliography \<Longrightarrow>
   work_items now src bibliography ! i =
     \<lparr>index = i, source_paper = src, reference = bibliography ! i, timestamp = now i\<rparr>"
  by (simp add: work_items_def nth_enumerate_eq)

lemma nth_expected_results:
  "i < length bibliography \<Longrightarrow>
   expected_results verify now took src bibliography ! i =
     worker_result verify took
       \<lparr>index = i, source_paper = src, reference = bibliography ! i, timestamp = now i\<rparr>"
  by (simp add: expected_results_def nth_work_items)

text \<open>
  When every reference of the bibliography prints, the processor delivers what its
  docstring promises, whatever the order in which the workers complete the items: the
  call returns for some schedule, it never leaves the printer waiting, and whenever it
  returns the callback has been invoked exactly N times, on the results of the indices
  0, 1, ..., N-1 in this order.
\<close>

lemma callbacks_in_citation_order_when_printing_succeeds:
  assumes "0 < max_workers p" and "list_all reference_prints bibliography"
  shows "(\<exists>sched q s.
            verify_references_parallel verify now took sched p src bibliography (Some f) = Returned q s) \<and>
         (\<forall>sched q.
            verify_references_parallel verify now took sched p src bibliography (Some f) \<noteq> Blocked q) \<and>
         (\<forall>sched q s.
            verify_references_parallel verify now took sched p src bibliography (Some f) = Returned q s \<longrightarrow>
            (\<exists>cs. called q = called p @ cs \<and> length cs = length bibliography \<and>
                  map res_index cs = [0..<length bibliography]))"
proof (intro conjI allI impI)
  show "\<exists>sched q s.
      verify_references_parallel verify now took sched p src bibliography (Some f) = Returned q s"
    by (rule parallel_run_returns[OF assms])
next
  fix sched q
  show "verify_references_parallel verify now took sched p src bibliography (Some f) \<noteq> Blocked q"
    by (rule parallel_run_not_blocked[OF assms])
next
  fix sched q s
  assume "verify_references_parallel verify now took sched p src bibliography (Some f) = Returned q s"
  from parallel_run[OF assms(1) this]
  have "called q = called p @ expected_results verify now took src bibliography" by simp
  then show "\<exists>cs. called q = called p @ cs \<and> length cs = length bibliography \<and>
                  map res_index cs = [0..<length bibliography]"
    by (simp add: index_expected_results)
qed

text \<open>
  C1. The claim asks, for every bibliography of size N, for exactly N invocations of the
  callback, in citation order. The code does not deliver this when
  \<open>_print_reference_result\<close> raises on one of the references (\<open>authors\<close> is \<open>None\<close>, say):
  the \<open>except Exception: continue\<close> of the printer's outer loop skips the callback, the
  deletion and the advance, the same index fails again at every later round, and the
  printer ends blocked in \<open>result_queue.get\<close>. For a bibliography with such a
  reference and a processor with at least one worker: no schedule makes the call
  return; some schedule runs all workers to their end and leaves the main thread joined
  to the blocked printer; and in every such run the callback has been invoked on the
  results of the indices 0, ..., k-1 only, for some k < N.
\<close>

theorem print_failure_blocks_the_printer:
  assumes "0 < max_workers p" and "ref \<in> set bibliography" and "\<not> reference_prints ref"
  shows "(\<forall>sched q s.
            verify_references_parallel verify now took sched p src bibliography (Some f) \<noteq> Returned q s) \<and>
         (\<exists>sched q.
            verify_references_parallel verify now took sched p src bibliography (Some f) = Blocked q) \<and>
         (\<forall>sched q.
            verify_references_parallel verify now took sched p src bibliography (Some f) = Blocked q \<longrightarrow>
            (\<exists>cs. called q = called p @ cs \<and> length cs < length bibliography \<and>
                  map res_index cs = [0..<length cs]))"
proof -
  have nr: "verify_references_parallel verify now took sched p src bibliography (Some f) \<noteq> Returned q s"
    for sched q s
  proof
    assume "verify_references_parallel verify now took sched p src bibliography (Some f) = Returned q s"
    from parallel_run[OF assms(1) this] have "list_all reference_prints bibliography" by simp
    with assms(2,3) show False by (simp add: list_all_iff)
  qed
  have bl: "\<exists>sched q.
      verify_references_parallel verify now took sched p src bibliography (Some f) = Blocked q"
  proof -
    obtain sched where
      "(\<exists>q s. verify_references_parallel verify now took sched p src bibliography (Some f) = Returned q s) \<or>
       (\<exists>q. verify_references_parallel verify now took sched p src bibliography (Some f) = Blocked q)"
      using parallel_run_drains[OF assms(1), where verify = verify and now = now and took = took
          and src = src and bibliography = bibliography and cb = "Some f"]
      by (elim exE) (rule that)
    then have "\<exists>q. verify_references_parallel verify now took sched p src bibliography (Some f) = Blocked q"
      using nr by simp
    then show ?thesis by (rule exI)
  qed
  have fewer: "\<exists>cs. called q = called p @ cs \<and> length cs < length bibliography \<and>
                  map res_index cs = [0..<length cs]"
    if "verify_references_parallel verify now took sched p src bibliography (Some f) = Blocked q"
    for sched q
    using parallel_run_blocked[OF assms(1) that] by auto
  show ?thesis
  proof (intro conjI allI impI)
    fix sched q s
    show "verify_references_parallel verify now took sched p src bibliography (Some f) \<noteq> Returned q s"
      by (rule nr)
  next
    show "\<exists>sched q.
      verify_references_parallel verify now took sched p src bibliography (Some f) = Blocked q"
      by (rule bl)
  next
    fix sched q
    assume "verify_references_parallel verify now took sched p src bibliography (Some f) = Blocked q"
    then show "\<exists>cs. called q = called p @ cs \<and> length cs < length bibliography \<and>
                  map res_index cs = [0..<length cs]"
      by (rule fewer)
  qed
qed

definition demo_schedule :: "nat list" where
  "demo_schedule = [0, 1, 1, 0, 1, 1, 0, 1, 0]"

definition quiet_checker :: "(unit, unit) checker" where
  "quiet_checker src r = Inr (Some [], None, None)"

definition malformed_bibliography :: "ref_dict list" where
  "malformed_bibliography =
     [[(''title'', PStr ''a''), (''authors'', PNone)], [(''title'', PStr ''b'')]]"

theorem print_failure_blocks_the_printer_witness:
  "0 < max_workers (new_processor 2 :: unit processor) \<and>
   malformed_bibliography ! 0 \<in> set malformed_bibliography \<and>
   \<not> reference_prints (malformed_bibliography ! 0) \<and>
   (\<exists>q. verify_references_parallel quiet_checker (\<lambda>i. 0) (\<lambda>i. 1) [0, 1, 0, 1, 0, 1]
           (new_processor 2) () malformed_bibliography (Some (\<lambda>r. False)) = Blocked q \<and>
        length (called q) < length malformed_bibliography \<and>
        called q = [] \<and> printed q = [] \<and> next_print_index q = 0 \<and>
        map fst (result_buffer q) = [0, 1] \<and> printer_errors q = [0, 0] \<and>
        total_processed (stats q) = 2)"
proof -
  let ?run = "verify_references_parallel quiet_checker (\<lambda>i. 0) (\<lambda>i. 1) [0, 1, 0, 1, 0, 1]
           (new_processor 2) () malformed_bibliography (Some (\<lambda>r. False))"
  have mw: "0 < max_workers (new_processor 2 :: unit processor)"
    by (simp add: new_processor_def)
  have mem: "malformed_bibliography ! 0 \<in> set malformed_bibliography"
    by (simp add: malformed_bibliography_def)
  have bad: "\<not> reference_prints (malformed_bibliography ! 0)"
    by (simp add: malformed_bibliography_def reference_prints_def dict_get_def)
  have "case ?run of
          Blocked q \<Rightarrow> called q = [] \<and> printed q = [] \<and> next_print_index q = 0 \<and>
            map fst (result_buffer q) = [0, 1] \<and> printer_errors q = [0, 0] \<and>
            total_processed (stats q) = 2
        | _ \<Rightarrow> False"
    by code_simp
  then obtain q where run: "?run = Blocked q"
    and obs: "called q = []" "printed q = []" "next_print_index q = 0"
      "map fst (result_buffer q) = [0, 1]"
      "printer_errors q = [0, 0]" "total_processed (stats q) = 2"
    by (cases ?run) simp_all
  note inst = print_failure_blocks_the_printer[where p = "new_processor 2 :: unit processor"
      and verify = quiet_checker and src = "()" and now = "\<lambda>i. 0" and took = "\<lambda>i. 1"
      and bibliography = malformed_bibliography and f = "\<lambda>r. False", OF mw mem bad]
  from inst[THEN conjunct2, THEN conjunct2, rule_format, OF run]
  obtain cs where cs: "called q = called (new_processor 2) @ cs"
    "length cs < length malformed_bibliography"
    by (elim exE conjE) (rule that)
  have c: "length (called q) < length malformed_bibliography"
    using cs by (simp add: new_processor_def)
  have "\<exists>q. ?run = Blocked q \<and>
        length (called q) < length malformed_bibliography \<and>
        called q = [] \<and> printed q = [] \<and> next_print_index q = 0 \<and>
        map fst (result_buffer q) = [0, 1] \<and> printer_errors q = [0, 0] \<and>
        total_processed (stats q) = 2"
    by (intro exI conjI) (rule run, rule c, rule obs, rule obs, rule obs, rule obs, rule obs, rule obs)
  with mw mem bad show ?thesis by (intro conjI)
qed

text \<open>
  The containment of a fault in the worker. When the verification of the reference at
  index \<open>i\<close> raises inside a worker, the worker puts exactly one result for it on the
  result queue: it carries index \<open>i\<close>, the single finding \<open>processing_failed\<close> and no
  URL. Every schedule that runs the workers to their end leaves one result per index on
  the result queue, the failed one for \<open>i\<close> and, for every index whose verification
  returned, the triple that it returned. Whenever the call returns it has printed these
  results in index order, and it does return for some schedule when every reference
  prints.
\<close>

lemma internal_fault_is_contained_in_the_worker:
  assumes "0 < max_workers p"
    and "i < length bibliography"
    and "verify src (bibliography ! i) = Inl e"
  shows "(\<exists>rs. rs = expected_results verify now took src bibliography \<and>
            length rs = length bibliography \<and>
            rs ! i = \<lparr>res_index = i, errors = Some [processing_failed e], url = None,
               processing_time = took i, res_reference = bibliography ! i,
               verified_data = None\<rparr> \<and>
            (\<forall>j < length bibliography. \<forall>errs u vd.
               verify src (bibliography ! j) = Inr (errs, u, vd) \<longrightarrow>
               rs ! j = \<lparr>res_index = j, errors = errs, url = u, processing_time = took j,
                  res_reference = bibliography ! j, verified_data = vd\<rparr>) \<and>
            (\<exists>sched. all_exited (run_workers verify took sched
               (initial_pool (max_workers p) (work_items now src bibliography)))) \<and>
            (\<forall>sched. all_exited (run_workers verify took sched
                 (initial_pool (max_workers p) (work_items now src bibliography))) \<longrightarrow>
               mset (result_queue (run_workers verify took sched
                 (initial_pool (max_workers p) (work_items now src bibliography)))) = mset rs) \<and>
            (\<forall>sched q s.
               verify_references_parallel verify now took sched p src bibliography cb = Returned q s \<longrightarrow>
               printed q = printed p @ rs) \<and>
            (list_all reference_prints bibliography \<longrightarrow>
               (\<exists>sched q s.
                  verify_references_parallel verify now took sched p src bibliography cb = Returned q s)))"
proof -
  let ?rs = "expected_results verify now took src bibliography"
  have 1: "?rs ! i = \<lparr>res_index = i, errors = Some [processing_failed e], url = None,
                  processing_time = took i, res_reference = bibliography ! i,
                  verified_data = None\<rparr>"
    using assms(2,3) by (simp add: nth_expected_results worker_result_def)
  have 2: "\<forall>j < length bibliography. \<forall>errs u vd.
                  verify src (bibliography ! j) = Inr (errs, u, vd) \<longrightarrow>
                  ?rs ! j = \<lparr>res_index = j, errors = errs, url = u, processing_time = took j,
                     res_reference = bibliography ! j, verified_data = vd\<rparr>"
    by (simp add: nth_expected_results worker_result_def)
  have 3: "\<exists>sched. all_exited (run_workers verify took sched
               (initial_pool (max_workers p) (work_items now src bibliography)))"
    by (rule pool_can_drain[OF initial_pool_ok])
  have 4: "\<forall>sched. all_exited (run_workers verify took sched
                 (initial_pool (max_workers p) (work_items now src bibliography))) \<longrightarrow>
               mset (result_queue (run_workers verify took sched
                 (initial_pool (max_workers p) (work_items now src bibliography)))) = mset ?rs"
  proof (intro allI impI)
    fix sched
    assume ex: "all_exited (run_workers verify took sched
                 (initial_pool (max_workers p) (work_items now src bibliography)))"
    show "mset (result_queue (run_workers verify took sched
                 (initial_pool (max_workers p) (work_items now src bibliography)))) = mset ?rs"
      by (rule results_indices(1)[OF assms(1) ex])
  qed
  have 5: "\<forall>sched q s.
               verify_references_parallel verify now took sched p src bibliography cb = Returned q s \<longrightarrow>
               printed q = printed p @ ?rs"
  proof (intro allI impI)
    fix sched q s
    assume "verify_references_parallel verify now took sched p src bibliography cb = Returned q s"
    from parallel_run[OF assms(1) this] show "printed q = printed p @ ?rs" by simp
  qed
  have 6: "list_all reference_prints bibliography \<longrightarrow>
               (\<exists>sched q s.
                  verify_references_parallel verify now took sched p src bibliography cb = Returned q s)"
  proof
    assume "list_all reference_prints bibliography"
    then show "\<exists>sched q s.
        verify_references_parallel verify now took sched p src bibliography cb = Returned q s"
      by (rule parallel_run_returns[OF assms(1)])
  qed
  show ?thesis
    by (rule exI[of _ ?rs], intro conjI)
       (rule refl, rule length_expected_results, rule 1, rule 2, rule 3, rule 4, rule 5, rule 6)
qed

text \<open>
  C3. The worker does contain the fault: a verification that raises at index \<open>i\<close> gives
  the result with the single finding \<open>processing_failed\<close> at index \<open>i\<close>, and every run
  of the workers to their end has put it on the result queue, together with one result
  for every other index. The batch nevertheless does not complete when the reference
  that made the verification raise makes \<open>_print_reference_result\<close> raise as well: the
  printer stalls on that result (the defect reported for C1), and no schedule makes the
  call return.
\<close>

theorem contained_fault_does_not_complete_the_batch:
  assumes "0 < max_workers p"
    and "i < length bibliography"
    and "verify src (bibliography ! i) = Inl e"
    and "\<not> reference_prints (bibliography ! i)"
  shows "worker_result verify took
           \<lparr>index = i, source_paper = src, reference = bibliography ! i, timestamp = now i\<rparr> =
         \<lparr>res_index = i, errors = Some [processing_failed e], url = None,
          processing_time = took i, res_reference = bibliography ! i, verified_data = None\<rparr> \<and>
         (\<forall>sched.
            all_exited (run_workers verify took sched
              (initial_pool (max_workers p) (work_items now src bibliography))) \<longrightarrow>
            length (result_queue (run_workers verify took sched
              (initial_pool (max_workers p) (work_items now src bibliography)))) = length bibliography \<and>
            \<lparr>res_index = i, errors = Some [processing_failed e], url = None,
              processing_time = took i, res_reference = bibliography ! i, verified_data = None\<rparr>
            \<in> set (result_queue (run_workers verify took sched
              (initial_pool (max_workers p) (work_items now src bibliography))))) \<and>
         (\<forall>sched q s.
            verify_references_parallel verify now took sched p src bibliography cb \<noteq> Returned q s) \<and>
         (\<exists>sched q.
            verify_references_parallel verify now took sched p src bibliography cb = Blocked q)"
proof -
  let ?failed = "\<lparr>res_index = i, errors = Some [processing_failed e], url = None,
          processing_time = took i, res_reference = bibliography ! i, verified_data = None\<rparr>"
  let ?rs = "expected_results verify now took src bibliography"
  have 1: "worker_result verify took
           \<lparr>index = i, source_paper = src, reference = bibliography ! i, timestamp = now i\<rparr> = ?failed"
    using assms(3) by (simp add: worker_result_def)
  have nth: "?rs ! i = ?failed"
    using assms(2) 1 by (simp add: nth_expected_results)
  have mem: "?failed \<in> set ?rs"
    using nth_mem[of i ?rs] assms(2) unfolding nth by simp
  have 2: "length (result_queue (run_workers verify took sched
              (initial_pool (max_workers p) (work_items now src bibliography)))) = length bibliography \<and>
            ?failed \<in> set (result_queue (run_workers verify took sched
              (initial_pool (max_workers p) (work_items now src bibliography))))"
    if ex: "all_exited (run_workers verify took sched
              (initial_pool (max_workers p) (work_items now src bibliography)))" for sched
  proof -
    let ?q = "result_queue (run_workers verify took sched
              (initial_pool (max_workers p) (work_items now src bibliography)))"
    have m: "mset ?q = mset ?rs" by (rule results_indices(1)[OF assms(1) ex])
    have "size (mset ?q) = size (mset ?rs)" unfolding m ..
    then have "length ?q = length bibliography" by simp
    moreover have "set ?q = set ?rs" using m by (rule mset_eq_setD)
    ultimately show ?thesis using mem by simp
  qed
  have bad: "bibliography ! i \<in> set bibliography" using assms(2) by simp
  have nr: "verify_references_parallel verify now took sched p src bibliography cb \<noteq> Returned q s"
    for sched q s
  proof
    assume "verify_references_parallel verify now took sched p src bibliography cb = Returned q s"
    from parallel_run[OF assms(1) this] have "list_all reference_prints bibliography" by simp
    with bad assms(4) show False by (simp add: list_all_iff)
  qed
  have bl: "\<exists>sched q.
      verify_references_parallel verify now took sched p src bibliography cb = Blocked q"
  proof -
    obtain sched where
      "(\<exists>q s. verify_references_parallel verify now took sched p src bibliography cb = Returned q s) \<or>
       (\<exists>q. verify_references_parallel verify now took sched p src bibliography cb = Blocked q)"
      using parallel_run_drains[OF assms(1), where verify = verify and now = now and took = took
          and src = src and bibliography = bibliography and cb = cb]
      by (elim exE) (rule that)
    then have "\<exists>q. verify_references_parallel verify now took sched p src bibliography cb = Blocked q"
      using nr by simp
    then show ?thesis by (rule exI)
  qed
  show ?thesis
  proof (intro conjI allI impI)
    show "worker_result verify took
           \<lparr>index = i, source_paper = src, reference = bibliography ! i, timestamp = now i\<rparr> = ?failed"
      by (rule 1)
  next
    fix sched
    assume ex: "all_exited (run_workers verify took sched
              (initial_pool (max_workers p) (work_items now src bibliography)))"
    show "length (result_queue (run_workers verify took sched
              (initial_pool (max_workers p) (work_items now src bibliography)))) = length bibliography"
      by (rule conjunct1[OF 2[OF ex]])
    show "?failed \<in> set (result_queue (run_workers verify took sched
              (initial_pool (max_workers p) (work_items now src bibliography))))"
      by (rule conjunct2[OF 2[OF ex]])
  next
    fix sched q s
    show "verify_references_parallel verify now took sched p src bibliography cb \<noteq> Returned q s"
      by (rule nr)
  next
    show "\<exists>sched q.
      verify_references_parallel verify now took sched p src bibliography cb = Blocked q"
      by (rule bl)
  qed
qed

definition strict_checker :: "(unit, unit) checker" where
  "strict_checker src r =
     (if reference_prints r then Inr (Some [], None, None)
      else Inl ''can only join an iterable'')"

theorem contained_fault_does_not_complete_the_batch_witness:
  "0 < max_workers (new_processor 2 :: unit processor) \<and>
   0 < length malformed_bibliography \<and>
   strict_checker () (malformed_bibliography ! 0) = Inl ''can only join an iterable'' \<and>
   \<not> reference_prints (malformed_bibliography ! 0) \<and>
   all_exited (run_workers strict_checker (\<lambda>i. 1) [0, 1, 0, 1, 0, 1]
     (initial_pool 2 (work_items (\<lambda>i. 0) () malformed_bibliography))) \<and>
   map errors (result_queue (run_workers strict_checker (\<lambda>i. 1) [0, 1, 0, 1, 0, 1]
     (initial_pool 2 (work_items (\<lambda>i. 0) () malformed_bibliography)))) =
     [Some [processing_failed ''can only join an iterable''], Some []] \<and>
   (\<forall>q s. verify_references_parallel strict_checker (\<lambda>i. 0) (\<lambda>i. 1) [0, 1, 0, 1, 0, 1]
           (new_processor 2) () malformed_bibliography None \<noteq> Returned q s) \<and>
   (\<exists>q. verify_references_parallel strict_checker (\<lambda>i. 0) (\<lambda>i. 1) [0, 1, 0, 1, 0, 1]
           (new_processor 2) () malformed_bibliography None = Blocked q \<and> printed q = [])"
proof -
  let ?sched = "[0, 1, 0, 1, 0, 1] :: nat list"
  let ?pl = "run_workers strict_checker (\<lambda>i. 1) ?sched
     (initial_pool 2 (work_items (\<lambda>i. 0) () malformed_bibliography))"
  let ?run = "verify_references_parallel strict_checker (\<lambda>i. 0) (\<lambda>i. 1) ?sched
           (new_processor 2) () malformed_bibliography None"
  have mw: "0 < max_workers (new_processor 2 :: unit processor)"
    by (simp add: new_processor_def)
  have i: "0 < length malformed_bibliography"
    by (simp add: malformed_bibliography_def)
  have bad: "\<not> reference_prints (malformed_bibliography ! 0)"
    by (simp add: malformed_bibliography_def reference_prints_def dict_get_def)
  have raises: "strict_checker () (malformed_bibliography ! 0) = Inl ''can only join an iterable''"
    using bad by (simp add: strict_checker_def)
  have ex: "all_exited ?pl" by code_simp
  have q: "map errors (result_queue ?pl) =
     [Some [processing_failed ''can only join an iterable''], Some []]"
    by code_simp
  have "case ?run of Blocked q \<Rightarrow> printed q = [] | _ \<Rightarrow> False"
    by code_simp
  then obtain q where run: "?run = Blocked q" and pr: "printed q = []"
    by (cases ?run) simp_all
  note inst = contained_fault_does_not_complete_the_batch[where p = "new_processor 2 :: unit processor"
      and verify = strict_checker and src = "()" and now = "\<lambda>i. 0" and took = "\<lambda>i. 1"
      and bibliography = malformed_bibliography and i = 0 and cb = None, OF mw i raises bad]
  have nr: "\<forall>q' s. ?run \<noteq> Returned q' s"
    by (intro allI) (rule inst[THEN conjunct2, THEN conjunct2, THEN conjunct1, rule_format])
  have bl: "\<exists>q. ?run = Blocked q \<and> printed q = []"
    by (intro exI conjI) (rule run, rule pr)
  from mw i raises bad ex q nr bl show ?thesis by (intro conjI)
qed

text \<open>
  C10. The \<open>total_errors\<close> entry of the returned statistics grows, over a call, by the
  number of finding records of all the results of the call: every entry of every
  \<open>errors\<close> list counts one, whether it is keyed \<open>error_type\<close> or \<open>warning_type\<close>. For
  a processor whose statistics are fresh it is that number.
\<close>

theorem total_errors_counts_every_finding:
  assumes "0 < max_workers p"
    and "verify_references_parallel verify now took sched p src bibliography cb = Returned q s"
  shows "\<exists>rs. printed q = printed p @ rs \<and> length rs = length bibliography \<and>
           bs_total_errors s = total_errors (stats p) + sum_list (map finding_count rs) \<and>
           sum_list (map finding_count rs) =
             sum_list (map (\<lambda>r. case errors r of None \<Rightarrow> 0
                | Some es \<Rightarrow> length (filter is_error_finding es) +
                           length (filter (\<lambda>f. \<not> is_error_finding f) es)) rs)"
proof -
  let ?E = "expected_results verify now took src bibliography"
  from parallel_run[OF assms]
  obtain rs where rs: "s = get_stats q" "printed q = printed p @ ?E"
    "mset rs = mset ?E" "stats q = foldl (\<lambda>s r. update_stats r s) (stats p) rs"
    by blast
  have "bs_total_errors s = total_errors (stats p) + sum_list (map finding_count rs)"
    using rs(1,4) by (simp add: get_stats_def total_errors_foldl)
  also have "sum_list (map finding_count rs) = sum_list (map finding_count ?E)"
    using rs(3) by (rule sum_list_mset_cong)
  finally have 1: "bs_total_errors s = total_errors (stats p) + sum_list (map finding_count ?E)" .
  have 2: "sum_list (map finding_count ?E) =
             sum_list (map (\<lambda>r. case errors r of None \<Rightarrow> 0
                | Some es \<Rightarrow> length (filter is_error_finding es) +
                           length (filter (\<lambda>f. \<not> is_error_finding f) es)) ?E)"
    by (rule arg_cong[where f = sum_list], rule map_cong[OF refl])
       (simp add: finding_count_def sum_length_filter_compl split: option.splits)
  show ?thesis
    using rs(2) 1 2 by (intro exI[of _ ?E]) simp
qed

definition demo_bibliography :: "ref_dict list" where
  "demo_bibliography =
     [[(''title'', PStr ''a''), (''authors'', PList [PStr ''A. Author''])],
      [(''title'', PStr ''b'')],
      [(''title'', PStr ''c''), (''raw_text'', PStr ''[3] C. Author. c. 2020.'')]]"

definition demo_findings_checker :: "(unit, unit) checker" where
  "demo_findings_checker src r =
     (if map_of r ''title'' = Some (PStr ''a'') then
        Inr (Some [[(''warning_type'', PStr ''year''),
                    (''warning_details'', PStr ''Year mismatch: cited as 2017 but actually 2018''),
                    (''ref_year_correct'', PInt 2018)]], None, None)
      else if map_of r ''title'' = Some (PStr ''b'') then Inl ''boom''
      else
        Inr (Some [[(''error_type'', PStr ''author''), (''error_details'', PStr ''First author mismatch''),
                    (''ref_authors_correct'', PStr ''A. Author'')],
                   [(''warning_type'', PStr ''venue''),
                    (''warning_details'', PStr ''Venue mismatch''),
                    (''ref_venue_correct'', PStr ''NeurIPS'')]], None, None))"

theorem total_errors_counts_every_finding_witness:
  "0 < max_workers (new_processor 2 :: unit processor) \<and>
   map res_index (result_queue (run_workers demo_findings_checker (\<lambda>i. 1) demo_schedule
     (initial_pool 2 (work_items (\<lambda>i. 0) () demo_bibliography)))) = [1, 0, 2] \<and>
   (\<exists>q s. verify_references_parallel demo_findings_checker (\<lambda>i. 0) (\<lambda>i. 1) demo_schedule
            (new_processor 2) () demo_bibliography None = Returned q s \<and>
          bs_total_errors s = 4 \<and>
          map finding_count (printed q) = [1, 1, 2] \<and>
          sum_list (map (\<lambda>r. case errors r of None \<Rightarrow> 0
             | Some es \<Rightarrow> length (filter is_error_finding es)) (printed q)) = 2)"
proof -
  let ?run = "verify_references_parallel demo_findings_checker (\<lambda>i. 0) (\<lambda>i. 1) demo_schedule
            (new_processor 2) () demo_bibliography None"
  have mw: "0 < max_workers (new_processor 2 :: unit processor)"
    by (simp add: new_processor_def)
  have arrival: "map res_index (result_queue (run_workers demo_findings_checker (\<lambda>i. 1) demo_schedule
     (initial_pool 2 (work_items (\<lambda>i. 0) () demo_bibliography)))) = [1, 0, 2]"
    by code_simp
  have "case ?run of
          Returned q s \<Rightarrow>
            map finding_count (printed q) = [1, 1, 2] \<and>
            sum_list (map (\<lambda>r. case errors r of None \<Rightarrow> 0
               | Some es \<Rightarrow> length (filter is_error_finding es)) (printed q)) = 2
        | _ \<Rightarrow> False"
    by code_simp
  then obtain q s where run: "?run = Returned q s"
    and c: "map finding_count (printed q) = [1, 1, 2]"
    and e: "sum_list (map (\<lambda>r. case errors r of None \<Rightarrow> 0
               | Some es \<Rightarrow> length (filter is_error_finding es)) (printed q)) = 2"
    by (cases ?run) simp_all
  let ?p = "new_processor 2 :: unit processor"
  obtain rs where a: "printed q = printed ?p @ rs"
    and b: "bs_total_errors s = total_errors (stats ?p) + sum_list (map finding_count rs)"
    using total_errors_counts_every_finding[OF mw run]
    by (elim exE conjE) (rule that, assumption+)
  have rs: "rs = printed q" using a by (simp add: new_processor_def)
  have z: "total_errors (stats ?p) = 0" by (simp add: new_processor_def)
  have "sum_list (map finding_count rs) = 4" unfolding rs c by simp
  then have t: "bs_total_errors s = 4" using b z by simp
  have "\<exists>q s. ?run = Returned q s \<and> bs_total_errors s = 4 \<and>
          map finding_count (printed q) = [1, 1, 2] \<and>
          sum_list (map (\<lambda>r. case errors r of None \<Rightarrow> 0
             | Some es \<Rightarrow> length (filter is_error_finding es)) (printed q)) = 2"
    by (intro exI conjI) (rule run, rule t, rule c, rule e)
  with mw arrival show ?thesis by (intro conjI)
qed


section \<open>Python strings\<close>

text \<open>
  Strings are ASCII. \<open>str.lower\<close>, the substring test \<open>a in b\<close>, \<open>str.split()\<close> on runs
  of whitespace, \<open>str.strip()\<close>, \<open>str.split(sep)\<close>, \<open>sep.join\<close> and \<open>str\<close> of an integer
  are written out; the whitespace characters are the ASCII ones Python counts as such.
\<close>

definition py_lower_char :: "char \<Rightarrow> char" where
  "py_lower_char c =
     (case map_of (zip ''ABCDEFGHIJKLMNOPQRSTUVWXYZ'' ''abcdefghijklmnopqrstuvwxyz'') c of
        Some d \<Rightarrow> d
      | None \<Rightarrow> c)"

definition py_lower :: "string \<Rightarrow> string" where
  "py_lower s = map py_lower_char s"

definition py_in :: "string \<Rightarrow> string \<Rightarrow> bool" where
  "py_in a b = sublist a b"

definition py_isspace :: "char \<Rightarrow> bool" where
  "py_isspace c = (c \<in> set [CHR '' '', CHR 0x09, CHR 0x0A, CHR 0x0B, CHR 0x0C, CHR 0x0D,
                              CHR 0x1C, CHR 0x1D, CHR 0x1E, CHR 0x1F])"

fun split_words :: "string \<Rightarrow> string \<Rightarrow> string list" where
  "split_words w [] = (if w = [] then [] else [w])"
| "split_words w (c # cs) =
     (if py_isspace c then (if w = [] then split_words [] cs else w # split_words [] cs)
      else split_words (w @ [c]) cs)"

definition py_split :: "string \<Rightarrow> string list" where
  "py_split s = split_words [] s"

definition py_strip :: "string \<Rightarrow> string" where
  "py_strip s = rev (dropWhile py_isspace (rev (dropWhile py_isspace s)))"

fun split_fields :: "char \<Rightarrow> string \<Rightarrow> string \<Rightarrow> string list" where
  "split_fields sep w [] = [w]"
| "split_fields sep w (c # cs) =
     (if c = sep then w # split_fields sep [] cs else split_fields sep (w @ [c]) cs)"

definition py_split_on :: "char \<Rightarrow> string \<Rightarrow> string list" where
  "py_split_on sep s = split_fields sep [] s"

fun py_join :: "string \<Rightarrow> string list \<Rightarrow> string" where
  "py_join sep [] = []"
| "py_join sep [x] = x"
| "py_join sep (x # y # ys) = x @ sep @ py_join sep (y # ys)"

definition digit_char :: "nat \<Rightarrow> char" where
  "digit_char d = ''0123456789'' ! d"

fun str_nat :: "nat \<Rightarrow> string" where
  "str_nat n = (if n < 10 then [digit_char n] else str_nat (n div 10) @ [digit_char (n mod 10)])"

definition str_int :: "int \<Rightarrow> string" where
  "str_int i = (if i < 0 then CHR ''-'' # str_nat (nat (- i)) else str_nat (nat i))"

text \<open>
  \<open>re.search\<close> for a pattern made of a literal followed by one capture group
  \<open>([...]+)\<close>: the leftmost position at which the literal is followed by at least one
  character of the class, and there the longest run of such characters.
\<close>

fun re_search_group :: "string \<Rightarrow> (char \<Rightarrow> bool) \<Rightarrow> string \<Rightarrow> string option" where
  "re_search_group lit cls [] = None"
| "re_search_group lit cls (c # cs) =
     (let g = (if prefix lit (c # cs) then takeWhile cls (drop (length lit) (c # cs)) else [])
      in if g \<noteq> [] then Some g else re_search_group lit cls cs)"

section \<open>Records of the checkers\<close>

text \<open>
  A citation is the reference dict the checkers read with \<open>reference.get\<close>; an absent
  key and an empty value are both the empty string (the year: \<open>0\<close>), which is how the
  code treats them. A paper is the dict a metadata source returns: \<open>externalIds\<close> is a
  dict from identifier type to identifier, \<open>openAccessPdf\<close> is the \<open>url\<close> entry of the dict
  of that name when there is one, the authors are the \<open>name\<close> entries of the author dicts.
\<close>

record citation =
  ref_title :: string
  ref_authors :: "string list"
  ref_year :: int
  ref_url :: string
  ref_raw_text :: string
  ref_doi :: string
  ref_journal :: string
  ref_venue :: string

record paper =
  p_title :: string
  p_authors :: "string list"
  p_year :: "int option"
  externalIds :: "(string \<times> string) list"
  p_url :: "string option"
  openAccessPdf :: "string option"
  p_venue :: string
  p_journal :: string

text \<open>Truthiness of an optional string and of an optional integer.\<close>

definition truthy_str :: "string option \<Rightarrow> bool" where
  "truthy_str v = (case v of None \<Rightarrow> False | Some s \<Rightarrow> s \<noteq> [])"

definition truthy_int :: "int option \<Rightarrow> bool" where
  "truthy_int v = (case v of None \<Rightarrow> False | Some i \<Rightarrow> i \<noteq> 0)"

section \<open>Python floats\<close>

text \<open>
  A Python \<open>float\<close> is an IEEE 754 binary64 number. The finite ones are rationals, and
  a literal, an addition or a division gives the exact value rounded to the nearest
  number with a significand of 53 bits, a tie going to the even significand. \<open>py_float\<close>
  is this rounding: the magnitude is scaled by powers of two into the range from
  \<open>2^52\<close> up to \<open>2^53\<close>, rounded to an integer and scaled back. Overflow and the
  subnormal range are not modelled; the scores of the checkers lie between 0 and 2.
\<close>

lemma halve_floor_less: "(2::rat) < y \<Longrightarrow> nat \<lfloor>y / 2\<rfloor> < nat \<lfloor>y\<rfloor>"
proof -
  assume y: "2 < y"
  have "y / 2 < of_int \<lfloor>y\<rfloor>" using y by linarith
  then have "\<lfloor>y / 2\<rfloor> < \<lfloor>y\<rfloor>" by (simp add: floor_less_iff)
  moreover have "0 < \<lfloor>y\<rfloor>" using y by linarith
  ultimately show ?thesis by linarith
qed

function scale_up :: "rat \<Rightarrow> int \<Rightarrow> rat \<times> int" where
  "scale_up x e = (if 0 < x \<and> x < 2 ^ 52 then scale_up (2 * x) (e - 1) else (x, e))"
  by pat_completeness auto

termination
proof (relation "measure (\<lambda>(x, e). nat \<lfloor>2 ^ 53 / x\<rfloor>)")
  show "wf (measure (\<lambda>(x, e). nat \<lfloor>2 ^ 53 / x\<rfloor>))" by simp
next
  fix x :: rat and e :: int
  assume a: "0 < x \<and> x < 2 ^ 52"
  then have "2 < 2 ^ 53 / x" by (simp add: pos_less_divide_eq)
  from halve_floor_less[OF this] a
  show "((2 * x, e - 1), (x, e)) \<in> measure (\<lambda>(x, e). nat \<lfloor>2 ^ 53 / x\<rfloor>)"
    by (simp add: field_simps)
qed

function scale_down :: "rat \<Rightarrow> int \<Rightarrow> rat \<times> int" where
  "scale_down x e = (if 2 ^ 53 \<le> x then scale_down (x / 2) (e + 1) else (x, e))"
  by pat_completeness auto

termination
proof (relation "measure (\<lambda>(x, e). nat \<lfloor>x\<rfloor>)")
  show "wf (measure (\<lambda>(x, e). nat \<lfloor>x\<rfloor>))" by simp
next
  fix x :: rat and e :: int
  assume a: "2 ^ 53 \<le> x"
  then have "2 < x" by simp
  from halve_floor_less[OF this]
  show "((x / 2, e + 1), (x, e)) \<in> measure (\<lambda>(x, e). nat \<lfloor>x\<rfloor>)"
    by simp
qed

declare scale_up.simps [simp del] scale_down.simps [simp del]

definition round_half_even :: "rat \<Rightarrow> int" where
  "round_half_even x =
     (let f = \<lfloor>x\<rfloor>; d = x - of_int f
      in if d < 1 / 2 then f else if 1 / 2 < d then f + 1 else if even f then f else f + 1)"

definition pow2 :: "int \<Rightarrow> rat" where
  "pow2 e = (if 0 \<le> e then 2 ^ nat e else 1 / 2 ^ nat (- e))"

definition py_float :: "rat \<Rightarrow> rat" where
  "py_float x =
     (if x = 0 then 0
      else
        let (y, e) = scale_up \<bar>x\<bar> 0;
            (m, e) = scale_down y e
        in sgn x * of_int (round_half_even m) * pow2 e)"

text \<open>\<open>a + b\<close> and \<open>a / b\<close> on floats (and \<open>m / n\<close> on integers, which is rounded once).\<close>

definition float_add :: "rat \<Rightarrow> rat \<Rightarrow> rat" where
  "float_add a b = py_float (a + b)"

definition float_div :: "rat \<Rightarrow> rat \<Rightarrow> rat" where
  "float_div a b = py_float (a / b)"

lemma scale_up_range:
  "2 ^ 52 \<le> x * 2 ^ k \<Longrightarrow> x * 2 ^ k < 2 ^ 53 \<Longrightarrow> scale_up x e = (x * 2 ^ k, e - int k)"
proof (induction k arbitrary: x e)
  case 0
  then show ?case by (subst scale_up.simps) simp
next
  case (Suc k)
  have pos: "0 < x"
  proof (rule ccontr)
    assume "\<not> 0 < x"
    then have "x * 2 ^ Suc k \<le> 0" by (simp add: mult_le_0_iff)
    with Suc.prems(1) show False by simp
  qed
  have "(1::rat) \<le> 2 ^ k" by simp
  then have "x * 1 \<le> x * 2 ^ k" using pos by (intro mult_left_mono) simp_all
  then have "2 * x \<le> x * 2 ^ Suc k" by simp
  with Suc.prems(2) have lt: "x < 2 ^ 52" by simp
  have "scale_up (2 * x) (e - 1) = (2 * x * 2 ^ k, e - 1 - int k)"
    by (rule Suc.IH) (use Suc.prems in \<open>simp_all add: mult.assoc mult.left_commute\<close>)
  then show ?case using pos lt by (subst scale_up.simps) (simp add: mult.assoc mult.left_commute)
qed

lemma round_half_even_near:
  assumes "\<bar>x - of_int n\<bar> < 1 / 2"
  shows "round_half_even x = n"
proof -
  let ?f = "\<lfloor>x\<rfloor>"
  have f: "of_int ?f \<le> x" "x < of_int ?f + 1" by linarith+
  have n: "of_int n - 1 / 2 < x" "x < of_int n + 1 / 2" using assms by linarith+
  show ?thesis
  proof (cases "x - of_int ?f < 1 / 2")
    case True
    have "(of_int n :: rat) < of_int ?f + 1" using n(1) True by linarith
    then have "(of_int n :: rat) < of_int (?f + 1)" by simp
    then have 1: "n < ?f + 1" by (simp only: of_int_less_iff)
    have "(of_int ?f :: rat) < of_int n + 1" using n(2) f(1) by linarith
    then have "(of_int ?f :: rat) < of_int (n + 1)" by simp
    then have 2: "?f < n + 1" by (simp only: of_int_less_iff)
    have "?f = n" using 1 2 by simp
    then show ?thesis using True by (simp add: round_half_even_def Let_def)
  next
    case False
    have ne: "x - of_int ?f \<noteq> 1 / 2"
    proof
      assume h: "x - of_int ?f = 1 / 2"
      have "(of_int n :: rat) < of_int ?f + 1" using n(1) h by linarith
      then have "(of_int n :: rat) < of_int (?f + 1)" by simp
      then have 1: "n < ?f + 1" by (simp only: of_int_less_iff)
      have "(of_int ?f :: rat) < of_int n" using n(2) h by linarith
      then have 2: "?f < n" by (simp only: of_int_less_iff)
      show False using 1 2 by simp
    qed
    then have gt: "1 / 2 < x - of_int ?f" using False by simp
    have "(of_int n :: rat) < of_int ?f + 2" using n(1) f(2) by linarith
    then have "(of_int n :: rat) < of_int (?f + 2)" by simp
    then have 1: "n < ?f + 2" by (simp only: of_int_less_iff)
    have "(of_int ?f :: rat) < of_int n" using n(2) gt by linarith
    then have 2: "?f < n" by (simp only: of_int_less_iff)
    have "?f + 1 = n" using 1 2 by simp
    then show ?thesis using False gt by (simp add: round_half_even_def Let_def)
  qed
qed

lemma round_half_even_tie:
  assumes "x = of_int n + 1 / 2"
  shows "round_half_even x = (if even n then n else n + 1)"
proof -
  have "\<lfloor>x\<rfloor> = n" unfolding assms by (rule floor_unique) simp_all
  then show ?thesis by (simp add: round_half_even_def Let_def assms)
qed

text \<open>
  The value of the rounding for a positive number below \<open>2^53\<close>: \<open>n / 2^k\<close> when
  \<open>x * 2^k\<close> lies in the range of the significands and \<open>n\<close> is the integer nearest to it.
\<close>

lemma py_float_eval:
  assumes "2 ^ 52 \<le> x * 2 ^ k" "x * 2 ^ k < 2 ^ 53" "\<bar>x * 2 ^ k - of_int n\<bar> < 1 / 2"
  shows "py_float x = of_int n / 2 ^ k"
proof -
  have pos: "0 < x"
  proof (rule ccontr)
    assume "\<not> 0 < x"
    then have "x * 2 ^ k \<le> 0" by (simp add: mult_le_0_iff)
    with assms(1) show False by simp
  qed
  have a: "\<bar>x\<bar> = x" "sgn x = 1" "x \<noteq> 0" using pos by simp_all
  have up: "scale_up x 0 = (x * 2 ^ k, - int k)"
    using scale_up_range[OF assms(1,2), of 0] by simp
  have down: "scale_down (x * 2 ^ k) (- int k) = (x * 2 ^ k, - int k)"
    using assms(2) by (subst scale_down.simps) simp
  have r: "round_half_even (x * 2 ^ k) = n" using assms(3) by (rule round_half_even_near)
  have p: "pow2 (- int k) = 1 / 2 ^ k" by (simp add: pow2_def)
  show ?thesis
    using a(3) by (simp add: py_float_def a(1,2) up down r p)
qed

lemma py_float_eval_tie:
  assumes "2 ^ 52 \<le> x * 2 ^ k" "x * 2 ^ k < 2 ^ 53" "x * 2 ^ k = of_int n + 1 / 2"
  shows "py_float x = of_int (if even n then n else n + 1) / 2 ^ k"
proof -
  have pos: "0 < x"
  proof (rule ccontr)
    assume "\<not> 0 < x"
    then have "x * 2 ^ k \<le> 0" by (simp add: mult_le_0_iff)
    with assms(1) show False by simp
  qed
  have a: "\<bar>x\<bar> = x" "sgn x = 1" "x \<noteq> 0" using pos by simp_all
  have up: "scale_up x 0 = (x * 2 ^ k, - int k)"
    using scale_up_range[OF assms(1,2), of 0] by simp
  have down: "scale_down (x * 2 ^ k) (- int k) = (x * 2 ^ k, - int k)"
    using assms(2) by (subst scale_down.simps) simp
  have r: "round_half_even (x * 2 ^ k) = (if even n then n else n + 1)"
    using assms(3) by (rule round_half_even_tie)
  have p: "pow2 (- int k) = 1 / 2 ^ k" by (simp add: pow2_def)
  show ?thesis
    using a(3) by (simp add: py_float_def a(1,2) up down r p)
qed

lemma py_float_zero [simp]: "py_float 0 = 0"
  by (simp add: py_float_def)

text \<open>The literals and the sums that occur in the scores.\<close>

lemma float_0_8: "py_float (8 / 10) = 3602879701896397 / 4503599627370496"
  using py_float_eval[where x = "8 / 10" and k = 53 and n = 7205759403792794] by simp

lemma float_0_2: "py_float (2 / 10) = 3602879701896397 / 18014398509481984"
  using py_float_eval[where x = "2 / 10" and k = 55 and n = 7205759403792794] by simp

lemma float_0_1: "py_float (1 / 10) = 3602879701896397 / 36028797018963968"
  using py_float_eval[where x = "1 / 10" and k = 56 and n = 7205759403792794] by simp

lemma float_0_7: "py_float (7 / 10) = 3152519739159347 / 4503599627370496"
  using py_float_eval[where x = "7 / 10" and k = 53 and n = 6305039478318694] by simp

lemma float_1_1: "py_float (11 / 10) = 2476979795053773 / 2251799813685248"
  using py_float_eval[where x = "11 / 10" and k = 52 and n = 4953959590107546] by simp

lemma float_0_5: "py_float (1 / 2) = 1 / 2"
  using py_float_eval[where x = "1 / 2" and k = 53 and n = 4503599627370496] by simp

lemma float_0_8_plus_0_2: "float_add (py_float (8 / 10)) (py_float (2 / 10)) = 1"
  unfolding float_add_def float_0_8 float_0_2
  using py_float_eval[where x = "3602879701896397 / 4503599627370496 + 3602879701896397 / 18014398509481984"
      and k = 52 and n = 4503599627370496] by simp

lemma float_1_plus_0_1: "float_add 1 (py_float (1 / 10)) = py_float (11 / 10)"
  unfolding float_add_def float_0_1 float_1_1
  using py_float_eval[where x = "1 + 3602879701896397 / 36028797018963968"
      and k = 52 and n = 4953959590107546] by simp

lemma float_0_5_plus_0_2: "float_add (1 / 2) (py_float (2 / 10)) = 6305039478318694 / 9007199254740992"
  unfolding float_add_def float_0_2
  using py_float_eval_tie[where x = "1 / 2 + 3602879701896397 / 18014398509481984"
      and k = 53 and n = 6305039478318694] by simp

lemma float_0_7_plus_0_1:
  "float_add (6305039478318694 / 9007199254740992) (py_float (1 / 10)) =
   7205759403792793 / 9007199254740992"
  unfolding float_add_def float_0_1
  using py_float_eval[where x = "6305039478318694 / 9007199254740992 + 3602879701896397 / 36028797018963968"
      and k = 53 and n = 7205759403792793] by simp

section \<open>local\_semantic\_scholar.py: \<open>find_best_match\<close>\<close>

text \<open>
  \<open>normalize_author_name\<close> and \<open>is_name_match\<close> come from \<open>utils.text_utils\<close>, which
  is not part of the sources at hand; they are parameters. The rows that
  \<open>search_papers_by_title\<close> reads from the database are the argument \<open>title_results\<close>.
  Scores are floats: the literals are rounded, the quotient of the word counts is the
  rounded quotient, and \<open>score += 0.2\<close> is a float addition.
\<close>

record name_utils =
  normalize_author_name :: "string \<Rightarrow> string"
  is_name_match :: "string \<Rightarrow> string \<Rightarrow> bool"

definition title_score :: "string \<Rightarrow> string \<Rightarrow> rat" where
  "title_score title_lower result_title =
     (if py_in title_lower result_title \<or> py_in result_title title_lower then py_float (8 / 10)
      else
        let title_words = set (py_split title_lower);
            result_words = set (py_split result_title);
            common_words = title_words \<inter> result_words
        in if title_words = {} \<or> result_words = {} then 0
           else float_div (of_nat (card common_words))
                  (of_nat (max (card title_words) (card result_words))))"

definition first_author_matches :: "name_utils \<Rightarrow> string list \<Rightarrow> paper \<Rightarrow> bool" where
  "first_author_matches nu authors result =
     (case (authors, p_authors result) of
        (a # _, b # _) \<Rightarrow> is_name_match nu (normalize_author_name nu a) (normalize_author_name nu b)
      | _ \<Rightarrow> False)"

definition year_matches :: "int option \<Rightarrow> paper \<Rightarrow> bool" where
  "year_matches year result = (truthy_int year \<and> p_year result = year)"

definition candidate_score :: "name_utils \<Rightarrow> string \<Rightarrow> string list \<Rightarrow> int option \<Rightarrow> paper \<Rightarrow> rat" where
  "candidate_score nu title authors year result =
     (let score = title_score (py_lower title) (py_lower (p_title result));
          score = (if first_author_matches nu authors result
                   then float_add score (py_float (2 / 10)) else score);
          score = (if year_matches year result
                   then float_add score (py_float (1 / 10)) else score)
      in score)"

text \<open>One round of the loop over the title results: the running best match and score.\<close>

definition best_step ::
  "name_utils \<Rightarrow> string \<Rightarrow> string list \<Rightarrow> int option \<Rightarrow> paper option \<times> rat \<Rightarrow> paper \<Rightarrow> paper option \<times> rat" where
  "best_step nu title authors year best result =
     (let score = candidate_score nu title authors year result
      in if score > snd best then (Some result, score) else best)"

definition find_best_match ::
  "name_utils \<Rightarrow> paper list \<Rightarrow> string \<Rightarrow> string list \<Rightarrow> int option \<Rightarrow> paper option" where
  "find_best_match nu title_results title authors year =
     (if title_results \<noteq> [] then
        (let (best_match, best_score) = foldl (best_step nu title authors year) (None, 0) title_results
         in if best_score \<ge> py_float (7 / 10) then best_match else None)
      else None)"

subsection \<open>The scoring rule and the acceptance rule\<close>

lemma title_score_substring:
  "py_in a b \<or> py_in b a \<Longrightarrow> title_score a b = py_float (8 / 10)"
  by (simp add: title_score_def)

lemma title_score_overlap:
  assumes "\<not> py_in a b" "\<not> py_in b a"
  shows "title_score a b =
     float_div (of_nat (card (set (py_split a) \<inter> set (py_split b))))
       (of_nat (max (card (set (py_split a))) (card (set (py_split b)))))"
  using assms by (auto simp: title_score_def Let_def float_div_def)

lemma candidate_score_eq:
  "candidate_score nu title authors year result =
     (if year_matches year result
      then float_add
             (if first_author_matches nu authors result
              then float_add (title_score (py_lower title) (py_lower (p_title result))) (py_float (2 / 10))
              else title_score (py_lower title) (py_lower (p_title result)))
             (py_float (1 / 10))
      else if first_author_matches nu authors result
           then float_add (title_score (py_lower title) (py_lower (p_title result))) (py_float (2 / 10))
           else title_score (py_lower title) (py_lower (p_title result)))"
  by (simp add: candidate_score_def Let_def)

lemma threshold_pos: "0 < py_float (7 / 10)"
  by (simp add: float_0_7)

lemma best_fold:
  fixes sc :: "paper \<Rightarrow> rat"
  assumes "sc = candidate_score nu title authors year"
  shows "foldl (best_step nu title authors year) (bm0, b0) xs =
     (if Max (insert b0 (sc ` set xs)) = b0 then bm0
      else find (\<lambda>r. sc r = Max (insert b0 (sc ` set xs))) xs,
      Max (insert b0 (sc ` set xs)))"
proof (induction xs arbitrary: bm0 b0)
  case Nil
  then show ?case by simp
next
  case (Cons x xs)
  let ?S = "sc ` set xs"
  have fin: "finite ?S" by simp
  show ?case
  proof (cases "sc x > b0")
    case True
    have step: "best_step nu title authors year (bm0, b0) x = (Some x, sc x)"
      using True by (simp add: best_step_def assms)
    have ge: "sc x \<le> Max (insert (sc x) ?S)" using fin by simp
    then have "b0 \<le> Max (insert (sc x) ?S)" using True by linarith
    then have mx: "Max (insert b0 (insert (sc x) ?S)) = Max (insert (sc x) ?S)"
      using fin by (simp only: Max_insert[of "insert (sc x) ?S" b0] finite_insert
          insert_not_empty not_False_eq_True max.absorb2)
    then have ne: "Max (insert (sc x) ?S) \<noteq> b0" using True by auto
    show ?thesis
      using Cons.IH[of "Some x" "sc x"] step mx ne by (auto simp: insert_commute)
  next
    case False
    have step: "best_step nu title authors year (bm0, b0) x = (bm0, b0)"
      using False by (simp add: best_step_def assms)
    have mx: "Max (insert b0 (insert (sc x) ?S)) = Max (insert b0 ?S)"
    proof -
      have "insert b0 (insert (sc x) ?S) = insert (sc x) (insert b0 ?S)" by auto
      moreover have "sc x \<le> Max (insert b0 ?S)"
        using False fin by (meson Max_ge finite_insert insertI1 not_le_imp_less order_trans less_imp_le linorder_not_le)
      ultimately show ?thesis using fin by (simp add: max.absorb2)
    qed
    have "Max (insert b0 ?S) \<noteq> b0 \<Longrightarrow> sc x \<noteq> Max (insert b0 ?S)"
    proof
      assume a: "Max (insert b0 ?S) \<noteq> b0" "sc x = Max (insert b0 ?S)"
      have "b0 \<le> Max (insert b0 ?S)" using fin by simp
      with a False show False by auto
    qed
    then show ?thesis
      using Cons.IH[of bm0 b0] step mx by auto
  qed
qed

lemma find_best_match_eq:
  fixes sc :: "paper \<Rightarrow> rat"
  assumes sc: "sc = candidate_score nu title authors year" and ne: "title_results \<noteq> []"
  shows "find_best_match nu title_results title authors year =
     (if Max (sc ` set title_results) \<ge> py_float (7 / 10)
      then find (\<lambda>r. sc r = Max (sc ` set title_results)) title_results
      else None)"
proof -
  let ?S = "sc ` set title_results"
  have fin: "finite ?S" and nonempty: "?S \<noteq> {}" using ne by auto
  have mx: "Max (insert 0 ?S) = max 0 (Max ?S)"
    using fin nonempty by simp
  show ?thesis
  proof (cases "Max ?S \<ge> py_float (7 / 10)")
    case True
    then have "Max (insert 0 ?S) = Max ?S" "Max ?S \<noteq> 0" using mx threshold_pos by auto
    then show ?thesis
      using True ne by (simp add: find_best_match_def best_fold[OF sc])
  next
    case False
    then have "\<not> Max (insert 0 ?S) \<ge> py_float (7 / 10)" using mx threshold_pos by auto
    then show ?thesis
      using False ne by (simp add: find_best_match_def best_fold[OF sc])
  qed
qed

lemma find_Max_Some:
  fixes sc :: "'a \<Rightarrow> rat"
  assumes "xs \<noteq> []"
  shows "\<exists>m. find (\<lambda>r. sc r = Max (sc ` set xs)) xs = Some m \<and> m \<in> set xs \<and>
             sc m = Max (sc ` set xs)"
proof -
  have "Max (sc ` set xs) \<in> sc ` set xs" using assms by (intro Max_in) auto
  then obtain r where "r \<in> set xs" "sc r = Max (sc ` set xs)" by auto
  then have "find (\<lambda>r. sc r = Max (sc ` set xs)) xs \<noteq> None"
    by (auto simp: find_None_iff)
  then obtain m where m: "find (\<lambda>r. sc r = Max (sc ` set xs)) xs = Some m" by auto
  then have "m \<in> set xs \<and> sc m = Max (sc ` set xs)"
    by (auto simp: find_Some_iff)
  with m show ?thesis by blast
qed

text \<open>
  C4. The score of a candidate of the title search, in the float arithmetic of the
  code: the base score is 0.8 when one lower-cased title occurs in the other, and
  otherwise the number of common words divided by the larger of the two word counts;
  0.2 is added when the normalized first authors match and then 0.1 when the cited year
  is given and equals the candidate's, so that a substring match with both bonuses
  scores 1.1. The search accepts a candidate exactly when the highest score reaches the
  threshold (0.7 in this function), and the candidate it accepts is the first one with
  the highest score.
\<close>

theorem title_search_scoring:
  "((py_in (py_lower title) (py_lower (p_title result)) \<or>
     py_in (py_lower (p_title result)) (py_lower title)) \<longrightarrow>
      title_score (py_lower title) (py_lower (p_title result)) = py_float (8 / 10)) \<and>
   (\<not> py_in (py_lower title) (py_lower (p_title result)) \<and>
    \<not> py_in (py_lower (p_title result)) (py_lower title) \<longrightarrow>
      title_score (py_lower title) (py_lower (p_title result)) =
        float_div
          (of_nat (card (set (py_split (py_lower title)) \<inter> set (py_split (py_lower (p_title result))))))
          (of_nat (max (card (set (py_split (py_lower title))))
                       (card (set (py_split (py_lower (p_title result)))))))) \<and>
   candidate_score nu title authors year result =
     (if year_matches year result
      then float_add
             (if first_author_matches nu authors result
              then float_add (title_score (py_lower title) (py_lower (p_title result))) (py_float (2 / 10))
              else title_score (py_lower title) (py_lower (p_title result)))
             (py_float (1 / 10))
      else if first_author_matches nu authors result
           then float_add (title_score (py_lower title) (py_lower (p_title result))) (py_float (2 / 10))
           else title_score (py_lower title) (py_lower (p_title result))) \<and>
   ((py_in (py_lower title) (py_lower (p_title result)) \<or>
     py_in (py_lower (p_title result)) (py_lower title)) \<and>
    first_author_matches nu authors result \<and> year_matches year result \<longrightarrow>
      candidate_score nu title authors year result = py_float (11 / 10)) \<and>
   (find_best_match nu title_results title authors year \<noteq> None \<longleftrightarrow>
      title_results \<noteq> [] \<and>
      py_float (7 / 10) \<le> Max (candidate_score nu title authors year ` set title_results)) \<and>
   (\<forall>m. find_best_match nu title_results title authors year = Some m \<longrightarrow>
      m \<in> set title_results \<and>
      candidate_score nu title authors year m =
        Max (candidate_score nu title authors year ` set title_results) \<and>
      find (\<lambda>r. candidate_score nu title authors year r =
                 Max (candidate_score nu title authors year ` set title_results)) title_results =
        Some m)"
proof -
  let ?a = "py_lower title" and ?b = "py_lower (p_title result)"
  let ?sc = "candidate_score nu title authors year"
  have 1: "py_in ?a ?b \<or> py_in ?b ?a \<longrightarrow> title_score ?a ?b = py_float (8 / 10)"
    by (simp add: title_score_substring)
  have 2: "\<not> py_in ?a ?b \<and> \<not> py_in ?b ?a \<longrightarrow>
      title_score ?a ?b =
        float_div (of_nat (card (set (py_split ?a) \<inter> set (py_split ?b))))
          (of_nat (max (card (set (py_split ?a))) (card (set (py_split ?b)))))"
    by (simp add: title_score_overlap)
  have 3: "?sc result =
     (if year_matches year result
      then float_add
             (if first_author_matches nu authors result
              then float_add (title_score ?a ?b) (py_float (2 / 10))
              else title_score ?a ?b)
             (py_float (1 / 10))
      else if first_author_matches nu authors result
           then float_add (title_score ?a ?b) (py_float (2 / 10))
           else title_score ?a ?b)"
    by (rule candidate_score_eq)
  have 4: "(py_in ?a ?b \<or> py_in ?b ?a) \<and>
    first_author_matches nu authors result \<and> year_matches year result \<longrightarrow>
      ?sc result = py_float (11 / 10)"
  proof
    assume h: "(py_in ?a ?b \<or> py_in ?b ?a) \<and>
      first_author_matches nu authors result \<and> year_matches year result"
    then have t: "title_score ?a ?b = py_float (8 / 10)" using 1 by simp
    have "?sc result = float_add (float_add (py_float (8 / 10)) (py_float (2 / 10))) (py_float (1 / 10))"
      unfolding 3 using h t by simp
    then show "?sc result = py_float (11 / 10)"
      by (simp only: float_0_8_plus_0_2 float_1_plus_0_1)
  qed
  have 5: "find_best_match nu title_results title authors year \<noteq> None \<longleftrightarrow>
      title_results \<noteq> [] \<and> py_float (7 / 10) \<le> Max (?sc ` set title_results)"
  proof (cases "title_results = []")
    case True
    then show ?thesis by (simp add: find_best_match_def)
  next
    case False
    from find_Max_Some[OF False, of ?sc] False show ?thesis
      by (auto simp: find_best_match_eq[OF refl False])
  qed
  have 6: "\<forall>m. find_best_match nu title_results title authors year = Some m \<longrightarrow>
      m \<in> set title_results \<and> ?sc m = Max (?sc ` set title_results) \<and>
      find (\<lambda>r. ?sc r = Max (?sc ` set title_results)) title_results = Some m"
  proof (cases "title_results = []")
    case True
    then show ?thesis by (simp add: find_best_match_def)
  next
    case False
    from find_Max_Some[OF False, of ?sc] show ?thesis
      by (auto simp: find_best_match_eq[OF refl False] split: if_splits)
  qed
  show ?thesis
    by (intro conjI) (rule 1, rule 2, rule 3, rule 4, rule 5, rule 6)
qed

definition demo_names :: name_utils where
  "demo_names = \<lparr>normalize_author_name = py_lower, is_name_match = (\<lambda>a b. a = b)\<rparr>"

definition attention_paper :: paper where
  "attention_paper =
     \<lparr>p_title = ''Attention is All you Need'', p_authors = [''Ashish Vaswani'', ''Noam Shazeer''],
      p_year = Some 2017, externalIds = [(''DOI'', ''10.5555/3295222.3295349''), (''ArXiv'', ''1706.03762'')],
      p_url = Some ''https://www.semanticscholar.org/paper/204e3073'',
      openAccessPdf = None, p_venue = ''Neural Information Processing Systems'', p_journal = []\<rparr>"

definition other_paper :: paper where
  "other_paper =
     \<lparr>p_title = ''All you need to know'', p_authors = [''Jane Roe''],
      p_year = Some 2019, externalIds = [], p_url = None,
      openAccessPdf = None, p_venue = [], p_journal = []\<rparr>"

definition deep_networks :: paper where
  "deep_networks =
     \<lparr>p_title = ''Deep Networks'', p_authors = [''Ann Lee''],
      p_year = Some 2020, externalIds = [], p_url = None,
      openAccessPdf = None, p_venue = [], p_journal = []\<rparr>"

definition deep_learning :: paper where
  "deep_learning =
     \<lparr>p_title = ''Deep Learning'', p_authors = [],
      p_year = None, externalIds = [], p_url = None,
      openAccessPdf = None, p_venue = [], p_journal = []\<rparr>"

lemma float_0_6: "py_float (3 / 5) = 5404319552844595 / 9007199254740992"
  using py_float_eval[where x = "3 / 5" and k = 53 and n = 5404319552844595] by simp

text \<open>
  The witness runs two searches. In the second the exact sum of the first candidate's
  score, 0.5 + 0.2 + 0.1, would tie with the 0.8 of the second candidate; the float sum
  is 0.7999999999999999, so the second candidate is the one returned.
\<close>

theorem title_search_scoring_witness:
  "title_score (py_lower ''Attention Is All You Need'') (py_lower (p_title attention_paper)) =
     py_float (8 / 10) \<and>
   title_score (py_lower ''Attention Is All You Need'') (py_lower (p_title other_paper)) =
     py_float (3 / 5) \<and>
   candidate_score demo_names ''Attention Is All You Need'' [''Ashish Vaswani''] (Some 2017)
     attention_paper = py_float (11 / 10) \<and>
   find_best_match demo_names [other_paper, attention_paper] ''Attention Is All You Need''
     [''Ashish Vaswani''] (Some 2017) = Some attention_paper \<and>
   find_best_match demo_names [other_paper] ''Attention Is All You Need''
     [''Ashish Vaswani''] (Some 2017) = None \<and>
   candidate_score demo_names ''deep learning'' [''Ann Lee''] (Some 2020) deep_networks =
     7205759403792793 / 9007199254740992 \<and>
   candidate_score demo_names ''deep learning'' [''Ann Lee''] (Some 2020) deep_learning =
     7205759403792794 / 9007199254740992 \<and>
   find_best_match demo_names [deep_networks, deep_learning] ''deep learning''
     [''Ann Lee''] (Some 2020) = Some deep_learning"
proof -
  let ?t = "''Attention Is All You Need''"
  let ?au = "[''Ashish Vaswani'']"
  let ?sc = "candidate_score demo_names ?t ?au (Some 2017)"
  note inst = title_search_scoring[of ?t _ demo_names ?au "Some 2017"]
  note c1 = inst[THEN conjunct1]
  note c2 = inst[THEN conjunct2, THEN conjunct1]
  note c3 = inst[THEN conjunct2, THEN conjunct2, THEN conjunct1]
  note c4 = inst[THEN conjunct2, THEN conjunct2, THEN conjunct2, THEN conjunct1]
  note c5 = inst[THEN conjunct2, THEN conjunct2, THEN conjunct2, THEN conjunct2, THEN conjunct1]
  note c6 = inst[THEN conjunct2, THEN conjunct2, THEN conjunct2, THEN conjunct2, THEN conjunct2]
  have sub: "py_in (py_lower ?t) (py_lower (p_title attention_paper)) \<or>
     py_in (py_lower (p_title attention_paper)) (py_lower ?t)"
    by code_simp
  have nosub: "\<not> py_in (py_lower ?t) (py_lower (p_title other_paper)) \<and>
     \<not> py_in (py_lower (p_title other_paper)) (py_lower ?t)"
    by code_simp
  have au: "first_author_matches demo_names ?au attention_paper" by code_simp
  have yr: "year_matches (Some 2017) attention_paper" by code_simp
  have nau: "\<not> first_author_matches demo_names ?au other_paper" by code_simp
  have nyr: "\<not> year_matches (Some 2017) other_paper" by code_simp
  have 1: "title_score (py_lower ?t) (py_lower (p_title attention_paper)) = py_float (8 / 10)"
    by (rule mp[OF c1 sub])
  have common: "card (set (py_split (py_lower ?t)) \<inter> set (py_split (py_lower (p_title other_paper)))) = 3"
    by code_simp
  have larger: "max (card (set (py_split (py_lower ?t))))
                    (card (set (py_split (py_lower (p_title other_paper))))) = 5"
    by code_simp
  have "title_score (py_lower ?t) (py_lower (p_title other_paper)) =
        float_div
          (of_nat (card (set (py_split (py_lower ?t)) \<inter> set (py_split (py_lower (p_title other_paper))))))
          (of_nat (max (card (set (py_split (py_lower ?t))))
                       (card (set (py_split (py_lower (p_title other_paper)))))))"
    by (rule mp[OF c2 nosub])
  then have 2: "title_score (py_lower ?t) (py_lower (p_title other_paper)) = py_float (3 / 5)"
    unfolding common larger by (simp add: float_div_def)
  have 3: "?sc attention_paper = py_float (11 / 10)"
    by (rule mp[OF c4 conjI[OF sub conjI[OF au yr]]])
  have s_other: "?sc other_paper = py_float (3 / 5)"
    using c3[of other_paper] nau nyr 2 by simp
  have mx: "Max (?sc ` set [other_paper, attention_paper]) = py_float (11 / 10)"
    by (simp add: s_other 3 float_0_6 float_1_1)
  have ne: "[other_paper, attention_paper] \<noteq> []" by (rule list.distinct(2))
  have ge: "py_float (7 / 10) \<le> Max (?sc ` set [other_paper, attention_paper])"
    unfolding mx by (simp add: float_0_7 float_1_1)
  have "find_best_match demo_names [other_paper, attention_paper] ?t ?au (Some 2017) \<noteq> None"
    by (rule iffD2[OF c5 conjI[OF ne ge]])
  then obtain m where
    m: "find_best_match demo_names [other_paper, attention_paper] ?t ?au (Some 2017) = Some m"
    by (rule not_None_eq[THEN iffD1, THEN exE])
  have fm: "find (\<lambda>r. ?sc r = Max (?sc ` set [other_paper, attention_paper]))
      [other_paper, attention_paper] = Some attention_paper"
    unfolding mx by (simp add: s_other 3 float_0_6 float_1_1)
  have "find (\<lambda>r. ?sc r = Max (?sc ` set [other_paper, attention_paper]))
      [other_paper, attention_paper] = Some m"
    by (rule c6[rule_format, OF m, THEN conjunct2, THEN conjunct2])
  then have "Some m = Some attention_paper" by (simp only: fm)
  then have 4: "find_best_match demo_names [other_paper, attention_paper] ?t ?au (Some 2017) =
      Some attention_paper" by (simp only: m)
  have nge: "\<not> py_float (7 / 10) \<le> Max (?sc ` set [other_paper])"
    by (simp add: s_other float_0_6 float_0_7)
  have 5: "find_best_match demo_names [other_paper] ?t ?au (Some 2017) = None"
  proof (rule ccontr)
    assume "find_best_match demo_names [other_paper] ?t ?au (Some 2017) \<noteq> None"
    then have "py_float (7 / 10) \<le> Max (?sc ` set [other_paper])"
      by (rule iffD1[OF c5, THEN conjunct2])
    with nge show False by (rule notE)
  qed
  let ?d = "''deep learning''"
  let ?sd = "candidate_score demo_names ?d [''Ann Lee''] (Some 2020)"
  have dn_sub: "\<not> py_in (py_lower ?d) (py_lower (p_title deep_networks)) \<and>
     \<not> py_in (py_lower (p_title deep_networks)) (py_lower ?d)"
    by code_simp
  have dn_words: "set (py_split (py_lower ?d)) \<noteq> {} \<and> set (py_split (py_lower (p_title deep_networks))) \<noteq> {} \<and>
     card (set (py_split (py_lower ?d)) \<inter> set (py_split (py_lower (p_title deep_networks)))) = 1 \<and>
     max (card (set (py_split (py_lower ?d))))
         (card (set (py_split (py_lower (p_title deep_networks))))) = 2"
    by code_simp
  have dn_au: "first_author_matches demo_names [''Ann Lee''] deep_networks" by code_simp
  have dn_yr: "year_matches (Some 2020) deep_networks" by code_simp
  have dn_title: "title_score (py_lower ?d) (py_lower (p_title deep_networks)) = 1 / 2"
    using dn_sub dn_words by (simp add: title_score_def Let_def float_div_def float_0_5)
  have "?sd deep_networks =
      float_add (float_add (title_score (py_lower ?d) (py_lower (p_title deep_networks)))
        (py_float (2 / 10))) (py_float (1 / 10))"
    by (simp only: candidate_score_eq dn_au dn_yr if_True)
  then have 6: "?sd deep_networks = 7205759403792793 / 9007199254740992"
    by (simp only: dn_title float_0_5_plus_0_2 float_0_7_plus_0_1)
  have dl_sub: "py_in (py_lower ?d) (py_lower (p_title deep_learning))" by code_simp
  have dl_au: "\<not> first_author_matches demo_names [''Ann Lee''] deep_learning" by code_simp
  have dl_yr: "\<not> year_matches (Some 2020) deep_learning" by code_simp
  have "?sd deep_learning = title_score (py_lower ?d) (py_lower (p_title deep_learning))"
    by (simp only: candidate_score_eq dl_au dl_yr if_False)
  also have "\<dots> = py_float (8 / 10)"
    by (rule title_score_substring[OF disjI1[OF dl_sub]])
  also have "\<dots> = 7205759403792794 / 9007199254740992"
    unfolding float_0_8 by simp
  finally have 7: "?sd deep_learning = 7205759403792794 / 9007199254740992" .
  have 8: "find_best_match demo_names [deep_networks, deep_learning] ?d [''Ann Lee''] (Some 2020) =
      Some deep_learning"
    by (simp add: find_best_match_def best_step_def Let_def 6 7 float_0_7)
  from 1 2 3 4 5 6 7 8 show ?thesis by (intro conjI)
qed

section \<open>semantic\_scholar.py\<close>

text \<open>
  \<open>utils.text_utils\<close>, \<open>utils.doi_utils\<close> and \<open>config.settings\<close> are not part of the
  sources at hand: the functions \<open>verify_reference\<close> takes from them, and the configured
  similarity threshold, are parameters. \<open>find_best_match\<close> of \<open>utils.text_utils\<close> returns
  the pair \<open>(best_match, best_score)\<close>.
\<close>

record text_utils =
  normalize_text :: "string \<Rightarrow> string"
  clean_title_for_search :: "string \<Rightarrow> string"
  find_best_match_scored :: "paper list \<Rightarrow> string \<Rightarrow> int \<Rightarrow> string list \<Rightarrow> paper option \<times> rat"
  calculate_title_similarity :: "string \<Rightarrow> string \<Rightarrow> rat"
  compare_authors :: "string list \<Rightarrow> string list \<Rightarrow> bool \<times> string"
  are_venues_substantially_different :: "string \<Rightarrow> string \<Rightarrow> bool"
  construct_doi_url :: "string \<Rightarrow> string"
  SIMILARITY_THRESHOLD :: rat

subsection \<open>The metadata source client\<close>

text \<open>
  What \<open>requests.get\<close> gives: it raises a \<open>RequestException\<close>, or it returns a response
  with a status code and a JSON body. The network is an input: the reply to a request
  depends on the request and on how many requests the checker has made before. The
  checker's state is its two failure flags; \<open>requests\<close> records the requests it has sent.
  The pauses of the backoff (\<open>time.sleep\<close>) are not modelled.
\<close>

datatype 'a reply = RequestException | Response nat 'a

record arxiv_entry =
  entry_title :: string
  entry_authors :: "string list"
  entry_year :: "int option"

record network =
  search_get :: "nat \<Rightarrow> string \<Rightarrow> paper list reply"
  doi_get :: "nat \<Rightarrow> string \<Rightarrow> paper reply"
  arxiv_get :: "nat \<Rightarrow> string \<Rightarrow> arxiv_entry option"

datatype request = SearchRequest string | DoiRequest string | ArxivRequest string

record checker_state =
  api_failed :: bool
  failure_reason :: "string option"
  requests :: "request list"

definition max_retries :: nat where
  "max_retries = 5"

text \<open>
  The \<open>for attempt in range(self.max_retries)\<close> loop of \<open>search_paper\<close>, with the
  number of attempts that are left: status 429 and a \<open>RequestException\<close> (which
  \<open>raise_for_status\<close> raises for the statuses from 400 to 599) lead to the next attempt,
  any other response is parsed and returned. \<open>None\<close>: the loop ran out.
\<close>

fun search_loop ::
  "network \<Rightarrow> string \<Rightarrow> nat \<Rightarrow> checker_state \<Rightarrow> paper list option \<times> checker_state" where
  "search_loop net query 0 st = (None, st)"
| "search_loop net query (Suc n) st =
     (let st' = st\<lparr>requests := requests st @ [SearchRequest query]\<rparr>
      in case search_get net (length (requests st)) query of
           RequestException \<Rightarrow> search_loop net query n st'
         | Response code data \<Rightarrow>
             if code = 429 then search_loop net query n st'
             else if 400 \<le> code \<and> code < 600 then search_loop net query n st'
             else (Some data, st'))"

definition search_paper ::
  "network \<Rightarrow> string \<Rightarrow> int option \<Rightarrow> checker_state \<Rightarrow> paper list \<times> checker_state" where
  "search_paper net query year st =
     (case search_loop net query max_retries st of
        (Some data, st') \<Rightarrow> (data, st')
      | (None, st') \<Rightarrow>
          ([], st'\<lparr>api_failed := True, failure_reason := Some ''rate_limited_or_timeout''\<rparr>))"

text \<open>
  The loop of \<open>get_paper_by_doi\<close>: as above, but status 404 returns \<open>None\<close> at once.
  \<open>None\<close>: the loop ran out; \<open>Some None\<close>: not found; \<open>Some (Some p)\<close>: the paper.
\<close>

fun doi_loop ::
  "network \<Rightarrow> string \<Rightarrow> nat \<Rightarrow> checker_state \<Rightarrow> paper option option \<times> checker_state" where
  "doi_loop net doi 0 st = (None, st)"
| "doi_loop net doi (Suc n) st =
     (let st' = st\<lparr>requests := requests st @ [DoiRequest doi]\<rparr>
      in case doi_get net (length (requests st)) doi of
           RequestException \<Rightarrow> doi_loop net doi n st'
         | Response code data \<Rightarrow>
             if code = 429 then doi_loop net doi n st'
             else if code = 404 then (Some None, st')
             else if 400 \<le> code \<and> code < 600 then doi_loop net doi n st'
             else (Some (Some data), st'))"

definition get_paper_by_doi ::
  "network \<Rightarrow> string \<Rightarrow> checker_state \<Rightarrow> paper option \<times> checker_state" where
  "get_paper_by_doi net doi st =
     (case doi_loop net doi max_retries st of
        (Some found, st') \<Rightarrow> (found, st')
      | (None, st') \<Rightarrow>
          (None, st'\<lparr>api_failed := True, failure_reason := Some ''rate_limited_or_timeout''\<rparr>))"

text \<open>
  \<open>_get_paper_from_arxiv_api\<close> makes one request and turns every failure into \<open>None\<close>;
  from an entry it builds a paper in the format of the other source.
\<close>

definition get_paper_from_arxiv_api ::
  "network \<Rightarrow> string \<Rightarrow> checker_state \<Rightarrow> paper option \<times> checker_state" where
  "get_paper_from_arxiv_api net arxiv_id st =
     (let st' = st\<lparr>requests := requests st @ [ArxivRequest arxiv_id]\<rparr>
      in case arxiv_get net (length (requests st)) arxiv_id of
           None \<Rightarrow> (None, st')
         | Some entry \<Rightarrow>
             (Some \<lparr>p_title = entry_title entry, p_authors = entry_authors entry,
                    p_year = entry_year entry, externalIds = [(''ArXiv'', arxiv_id)],
                    p_url = Some (''https://arxiv.org/abs/'' @ arxiv_id),
                    openAccessPdf = Some (''https://arxiv.org/pdf/'' @ arxiv_id @ ''.pdf''),
                    p_venue = ''arXiv'', p_journal = []\<rparr>, st'))"

subsection \<open>Identifiers in a URL\<close>

definition extract_doi_from_url :: "string \<Rightarrow> string option" where
  "extract_doi_from_url u =
     (if u = [] then None
      else if py_in ''doi.org'' u
      then re_search_group ''doi.org/'' (\<lambda>c. c \<noteq> CHR ''/'' \<and> \<not> py_isspace c) u
      else None)"

text \<open>
  The arXiv identifier of a citation's URL, as the three places of \<open>verify_reference\<close>
  that need it compute it: \<open>url and 'arxiv.org/abs/' in url\<close>, then
  \<open>re.search(r'arxiv\.org/abs/([^\s/?#]+)', url)\<close>.
\<close>

definition arxiv_id_of_url :: "string \<Rightarrow> string option" where
  "arxiv_id_of_url u =
     (if u \<noteq> [] \<and> py_in ''arxiv.org/abs/'' u
      then re_search_group ''arxiv.org/abs/'' (\<lambda>c. \<not> py_isspace c \<and> c \<notin> set ''/?#'') u
      else None)"

subsection \<open>The fallback chain\<close>

definition resolve_doi :: "citation \<Rightarrow> string option" where
  "resolve_doi r =
     (if ref_doi r \<noteq> [] then Some (ref_doi r)
      else if ref_url r \<noteq> [] then extract_doi_from_url (ref_url r)
      else None)"

text \<open>
  The local variables that the strategies share. \<open>cleaned_title\<close> is assigned only inside
  the title search; \<open>None\<close> is the unassigned variable.
\<close>

record locals =
  paper_data :: "paper option"
  found_title :: string
  cleaned_title :: "string option"


definition doi_lookup :: "network \<Rightarrow> string option \<Rightarrow> checker_state \<Rightarrow> paper option \<times> checker_state" where
  "doi_lookup net doi st =
     (case doi of None \<Rightarrow> (None, st) | Some d \<Rightarrow> get_paper_by_doi net d st)"

definition accept_scored ::
  "text_utils \<Rightarrow> paper option \<times> rat \<Rightarrow> locals \<Rightarrow> locals" where
  "accept_scored tu scored l =
     (case scored of
        (Some best_match, best_score) \<Rightarrow>
          if best_score \<ge> SIMILARITY_THRESHOLD tu
          then l\<lparr>paper_data := Some best_match, found_title := p_title best_match\<rparr>
          else l
      | (None, best_score) \<Rightarrow> l)"

definition title_search ::
  "text_utils \<Rightarrow> network \<Rightarrow> citation \<Rightarrow> locals \<Rightarrow> checker_state \<Rightarrow> locals \<times> checker_state" where
  "title_search tu net r l st =
     (if paper_data l = None \<and> ref_title r \<noteq> [] then
        (let ct = clean_title_for_search tu (ref_title r);
             (search_results, st') = search_paper net ct (Some (ref_year r)) st;
             l' = l\<lparr>cleaned_title := Some ct\<rparr>
         in if search_results \<noteq> []
            then (accept_scored tu
                    (find_best_match_scored tu search_results ct (ref_year r) (ref_authors r)) l', st')
            else (l', st'))
      else (l, st))"

definition arxiv_search ::
  "network \<Rightarrow> citation \<Rightarrow> locals \<Rightarrow> checker_state \<Rightarrow> locals \<times> checker_state" where
  "arxiv_search net r l st =
     (if paper_data l = None then
        (case arxiv_id_of_url (ref_url r) of
           None \<Rightarrow> (l, st)
         | Some arxiv_id \<Rightarrow>
             (let (search_results, st1) = search_paper net (''arXiv:'' @ arxiv_id) None st;
                  l1 = (case find (\<lambda>result. externalIds result \<noteq> [] \<and>
                                      map_of (externalIds result) ''ArXiv'' = Some arxiv_id)
                               search_results of
                          Some result \<Rightarrow> l\<lparr>paper_data := Some result, found_title := p_title result\<rparr>
                        | None \<Rightarrow> l)
              in if paper_data l1 = None then
                   (case get_paper_from_arxiv_api net arxiv_id st1 of
                      (Some arxiv_paper, st2) \<Rightarrow>
                        (l1\<lparr>paper_data := Some arxiv_paper, found_title := p_title arxiv_paper\<rparr>, st2)
                    | (None, st2) \<Rightarrow> (l1, st2))
                 else (l1, st1)))
      else (l, st))"

definition raw_text_search ::
  "text_utils \<Rightarrow> network \<Rightarrow> citation \<Rightarrow> locals \<Rightarrow> checker_state \<Rightarrow> (exn + locals) \<times> checker_state" where
  "raw_text_search tu net r l st =
     (if paper_data l = None \<and> ref_raw_text r \<noteq> [] then
        (let search_query = py_strip (map (\<lambda>c. if c = CHR 0x0A then CHR '' '' else c) (ref_raw_text r));
             normalized_raw_query = py_strip (py_lower (normalize_text tu search_query));
             (search_results, st') = search_paper net normalized_raw_query None st
         in if search_results \<noteq> [] then
              (case cleaned_title l of
                 None \<Rightarrow> (Inl (UnboundLocalError ''cleaned_title''), st')
               | Some ct \<Rightarrow>
                   (Inr (accept_scored tu
                      (find_best_match_scored tu search_results ct (ref_year r) (ref_authors r)) l), st'))
            else (Inr l, st'))
      else (Inr l, st))"

subsection \<open>Cross-validation of an accepted candidate\<close>

definition quoted :: "string \<Rightarrow> string" where
  "quoted s = CHR 0x27 # s @ [CHR 0x27]"

definition title_error :: "citation \<Rightarrow> string \<Rightarrow> paper \<Rightarrow> finding" where
  "title_error r found p =
     [(''error_type'', PStr ''title''),
      (''error_details'', PStr (''Title mismatch: cited as '' @ quoted (ref_title r) @
         '' but actually '' @ quoted found)),
      (''ref_title_correct'', PStr (p_title p))]"

definition check_title :: "text_utils \<Rightarrow> citation \<Rightarrow> string \<Rightarrow> paper \<Rightarrow> finding list" where
  "check_title tu r found p =
     (let title_similarity =
            (if found \<noteq> [] then calculate_title_similarity tu (ref_title r) found else 0)
      in if found \<noteq> [] \<and> title_similarity < SIMILARITY_THRESHOLD tu
         then [title_error r found p] else [])"

definition arxiv_id_match :: "citation \<Rightarrow> paper \<Rightarrow> bool" where
  "arxiv_id_match r p =
     (case arxiv_id_of_url (ref_url r) of
        None \<Rightarrow> False
      | Some cited_arxiv_id \<Rightarrow> map_of (externalIds p) ''ArXiv'' = Some cited_arxiv_id)"

definition author_warning :: "string \<Rightarrow> paper \<Rightarrow> finding" where
  "author_warning author_error p =
     [(''warning_type'', PStr ''author''),
      (''warning_details'', PStr (author_error @
         '' (Note: ArXiv ID matches exactly - this may be due to incomplete author data in Semantic Scholar)'')),
      (''ref_authors_correct'', PStr (py_join '', '' (p_authors p)))]"

definition author_error_finding :: "string \<Rightarrow> paper \<Rightarrow> finding" where
  "author_error_finding author_error p =
     [(''error_type'', PStr ''author''),
      (''error_details'', PStr author_error),
      (''ref_authors_correct'', PStr (py_join '', '' (p_authors p)))]"

definition check_authors :: "text_utils \<Rightarrow> citation \<Rightarrow> paper \<Rightarrow> finding list" where
  "check_authors tu r p =
     (if ref_authors r \<noteq> [] then
        (let (authors_match, author_error) = compare_authors tu (ref_authors r) (p_authors p)
         in if \<not> authors_match then
              (if arxiv_id_match r p then [author_warning author_error p]
               else [author_error_finding author_error p])
            else [])
      else [])"

definition year_warning :: "citation \<Rightarrow> paper \<Rightarrow> int \<Rightarrow> finding" where
  "year_warning r p paper_year =
     [(''warning_type'', PStr ''year''),
      (''warning_details'', PStr (''Year mismatch: cited as '' @ str_int (ref_year r) @
         '' but actually '' @ str_int paper_year @
         (if arxiv_id_match r p
          then '' (Note: ArXiv ID matches exactly - this may be due to conference vs. preprint year difference)''
          else []))),
      (''ref_year_correct'', PInt paper_year)]"

definition check_year :: "citation \<Rightarrow> paper \<Rightarrow> finding list" where
  "check_year r p =
     (case p_year p of
        None \<Rightarrow> []
      | Some paper_year \<Rightarrow>
          if ref_year r \<noteq> 0 \<and> paper_year \<noteq> 0 \<and> ref_year r \<noteq> paper_year
          then [year_warning r p paper_year] else [])"

text \<open>
  The last branch of the venue check: the citation has no venue, the candidate has one
  and is not an arXiv paper, and the third \<open>#\<close>-separated field of the raw text is not
  blank.
\<close>

definition venue_missing_warning :: "citation \<Rightarrow> string \<Rightarrow> finding list" where
  "venue_missing_warning r paper_venue =
     (let raw_text = ref_raw_text r
      in if raw_text \<noteq> [] \<and> CHR ''#'' \<in> set raw_text then
           (let parts = py_split_on CHR ''#'' raw_text
            in if length parts \<ge> 3 \<and> py_strip (parts ! 2) \<noteq> []
               then [[(''warning_type'', PStr ''venue''),
                      (''warning_details'', PStr (''Venue missing: should include '' @ quoted paper_venue)),
                      (''ref_venue_correct'', PStr paper_venue)]]
               else [])
         else [])"

definition check_venue :: "text_utils \<Rightarrow> citation \<Rightarrow> paper \<Rightarrow> finding list" where
  "check_venue tu r p =
     (let cited_venue = (if ref_journal r \<noteq> [] then ref_journal r else ref_venue r);
          paper_venue = (if p_venue p \<noteq> [] then p_venue p else p_journal p)
      in if cited_venue \<noteq> [] \<and> paper_venue \<noteq> [] then
           (if are_venues_substantially_different tu cited_venue paper_venue
            then [[(''warning_type'', PStr ''venue''),
                   (''warning_details'', PStr (''Venue mismatch: cited as '' @ quoted cited_venue @
                      '' but actually '' @ quoted paper_venue)),
                   (''ref_venue_correct'', PStr paper_venue)]]
            else [])
         else if cited_venue = [] \<and> paper_venue \<noteq> [] then
           (case map_of (externalIds p) ''ArXiv'' of
              Some arxiv_id \<Rightarrow>
                if arxiv_id \<noteq> [] then
                  [[(''warning_type'', PStr ''venue''),
                    (''warning_details'', PStr (''Reference should include arXiv URL: '' @
                       ''https://arxiv.org/abs/'' @ arxiv_id)),
                    (''ref_url_correct'', PStr (''https://arxiv.org/abs/'' @ arxiv_id))]]
                else venue_missing_warning r paper_venue
            | None \<Rightarrow> venue_missing_warning r paper_venue)
         else [])"

text \<open>
  The DOI check. \<open>doi\<close> is the identifier the lookup was tried with;
  \<open>s.split('#')[0]\<close> is the part of \<open>s\<close> before the first \<open>#\<close>.
\<close>

definition check_doi :: "string option \<Rightarrow> paper \<Rightarrow> finding list" where
  "check_doi doi p =
     (case map_of (externalIds p) ''DOI'' of
        None \<Rightarrow> []
      | Some paper_doi \<Rightarrow>
          (let cited_doi_clean =
                 (case doi of None \<Rightarrow> [] | Some d \<Rightarrow> takeWhile (\<lambda>c. c \<noteq> CHR ''#'') d);
               paper_doi_clean = takeWhile (\<lambda>c. c \<noteq> CHR ''#'') paper_doi
           in if cited_doi_clean \<noteq> [] \<and> paper_doi_clean \<noteq> [] \<and>
                 py_lower cited_doi_clean \<noteq> py_lower paper_doi_clean
              then [[(''error_type'', PStr ''doi''),
                     (''error_details'', PStr (''DOI mismatch: cited as '' @
                        (case doi of None \<Rightarrow> ''None'' | Some d \<Rightarrow> d) @
                        '' but actually '' @ paper_doi)),
                     (''ref_doi_correct'', PStr paper_doi)]]
              else []))"

text \<open>The URL of the verdict, by the four priorities of the code.\<close>

definition select_url :: "text_utils \<Rightarrow> paper \<Rightarrow> string option" where
  "select_url tu p =
     (if truthy_str (map_of (externalIds p) ''ArXiv'')
      then Some (''https://arxiv.org/abs/'' @ the (map_of (externalIds p) ''ArXiv''))
      else if truthy_str (openAccessPdf p) then openAccessPdf p
      else if truthy_str (p_url p) then p_url p
      else if truthy_str (map_of (externalIds p) ''DOI'')
      then Some (construct_doi_url tu (the (map_of (externalIds p) ''DOI'')))
      else p_url p)"

definition api_failure :: "checker_state \<Rightarrow> finding" where
  "api_failure st =
     [(''error_type'', PStr ''api_failure''),
      (''error_details'', PStr (''Semantic Scholar API failed: '' @
         (case failure_reason st of None \<Rightarrow> ''None'' | Some reason \<Rightarrow> reason)))]"

definition cross_validate ::
  "text_utils \<Rightarrow> citation \<Rightarrow> string option \<Rightarrow> string \<Rightarrow> paper \<Rightarrow> finding list" where
  "cross_validate tu r doi found p =
     check_title tu r found p @ check_authors tu r p @ check_year r p @
     check_venue tu r p @ check_doi doi p"

subsection \<open>\<open>verify_reference\<close>\<close>

text \<open>
  The first half of \<open>verify_reference\<close>: the four strategies in their order, on the
  checker's state after the reset of the failure flags. It ends with the locals, or with
  the exception that leaves the function.
\<close>

definition locate ::
  "text_utils \<Rightarrow> network \<Rightarrow> citation \<Rightarrow> checker_state \<Rightarrow> (exn + locals) \<times> checker_state" where
  "locate tu net r st =
     (let (by_doi, st1) = doi_lookup net (resolve_doi r) st;
          l0 = \<lparr>paper_data = by_doi, found_title = [], cleaned_title = None\<rparr>;
          (l1, st2) = title_search tu net r l0 st1;
          (l2, st3) = arxiv_search net r l1 st2
      in raw_text_search tu net r l2 st3)"

text \<open>
  The result is the exception that leaves the function, or the triple
  \<open>(verified_data, errors, url)\<close>; the second component is the checker's state after
  the call.
\<close>

definition verify_reference ::
  "text_utils \<Rightarrow> network \<Rightarrow> citation \<Rightarrow> checker_state \<Rightarrow>
     (exn + paper option \<times> finding list \<times> string option) \<times> checker_state" where
  "verify_reference tu net r st0 =
     (case locate tu net r (st0\<lparr>api_failed := False, failure_reason := None\<rparr>) of
        (Inl e, st) \<Rightarrow> (Inl e, st)
      | (Inr l, st) \<Rightarrow>
          (case paper_data l of
             None \<Rightarrow>
               if api_failed st then (Inr (None, [api_failure st], None), st)
               else (Inr (None, [], None), st)
           | Some p \<Rightarrow>
               (Inr (Some p, cross_validate tu r (resolve_doi r) (found_title l) p,
                     select_url tu p), st)))"

subsection \<open>Facts about the client and the chain\<close>

lemma doi_loop_requests:
  "doi_loop net doi n st = (res, st') \<Longrightarrow>
   \<exists>k \<le> n. requests st' = requests st @ replicate k (DoiRequest doi) \<and>
          api_failed st' = api_failed st \<and> failure_reason st' = failure_reason st \<and>
          (res \<noteq> None \<longrightarrow> 1 \<le> k)"
proof (induction n arbitrary: st)
  case 0
  then show ?case by auto
next
  case (Suc n)
  let ?st1 = "st\<lparr>requests := requests st @ [DoiRequest doi]\<rparr>"
  have base: "\<exists>k \<le> Suc n. requests ?st1 = requests st @ replicate k (DoiRequest doi) \<and>
      api_failed ?st1 = api_failed st \<and> failure_reason ?st1 = failure_reason st \<and> 1 \<le> k"
    by (rule exI[of _ 1]) simp
  have step: "\<exists>k \<le> Suc n. requests st' = requests st @ replicate k (DoiRequest doi) \<and>
          api_failed st' = api_failed st \<and> failure_reason st' = failure_reason st \<and>
          (res \<noteq> None \<longrightarrow> 1 \<le> k)"
    if "doi_loop net doi n ?st1 = (res, st')"
  proof -
    from Suc.IH[OF that] obtain k where k: "k \<le> n"
      "requests st' = requests ?st1 @ replicate k (DoiRequest doi)"
      "api_failed st' = api_failed ?st1" "failure_reason st' = failure_reason ?st1"
      by blast
    have "requests st' = requests st @ replicate (Suc k) (DoiRequest doi)"
      using k(2) by (simp add: replicate_append_same)
    then show ?thesis using k by (intro exI[of _ "Suc k"]) simp
  qed
  from Suc.prems show ?case
    using base step
    by (auto simp: Let_def split: reply.splits if_splits)
qed

lemma get_paper_by_doi_found:
  assumes "get_paper_by_doi net doi st = (Some p, st')"
  shows "\<exists>k. 1 \<le> k \<and> k \<le> max_retries \<and>
           requests st' = requests st @ replicate k (DoiRequest doi) \<and>
           api_failed st' = api_failed st \<and> failure_reason st' = failure_reason st"
proof -
  obtain res st1 where l: "doi_loop net doi max_retries st = (res, st1)"
    by (cases "doi_loop net doi max_retries st")
  with assms have "res = Some (Some p)" "st1 = st'"
    by (auto simp: get_paper_by_doi_def split: option.splits)
  with doi_loop_requests[OF l] show ?thesis by auto
qed

lemma title_search_found [simp]:
  "paper_data l = Some p \<Longrightarrow> title_search tu net r l st = (l, st)"
  by (simp add: title_search_def)

lemma arxiv_search_found [simp]:
  "paper_data l = Some p \<Longrightarrow> arxiv_search net r l st = (l, st)"
  by (simp add: arxiv_search_def)

lemma raw_text_search_found [simp]:
  "paper_data l = Some p \<Longrightarrow> raw_text_search tu net r l st = (Inr l, st)"
  by (simp add: raw_text_search_def)

lemma locate_by_doi:
  assumes "doi_lookup net (resolve_doi r) st = (Some p, st1)"
  shows "locate tu net r st =
     (Inr \<lparr>paper_data = Some p, found_title = [], cleaned_title = None\<rparr>, st1)"
  using assms by (simp add: locate_def)

text \<open>
  C5. When the citation supplies a DOI (in its \<open>doi\<close> field, or else in its URL) and the
  lookup by this DOI returns a paper, \<open>verify_reference\<close> returns this paper, and the
  requests it has sent are lookups of this DOI only: no search request (by title, by
  arXiv identifier, by raw text) and no arXiv API request.
\<close>

theorem doi_lookup_short_circuits:
  assumes "resolve_doi r = Some doi"
    and "get_paper_by_doi net doi (st\<lparr>api_failed := False, failure_reason := None\<rparr>) = (Some p, st1)"
  shows "resolve_doi r =
           (if ref_doi r \<noteq> [] then Some (ref_doi r) else extract_doi_from_url (ref_url r)) \<and>
         verify_reference tu net r st =
           (Inr (Some p, cross_validate tu r (Some doi) [] p, select_url tu p), st1) \<and>
         (\<exists>k. 1 \<le> k \<and> k \<le> max_retries \<and>
              requests st1 = requests st @ replicate k (DoiRequest doi))"
proof -
  let ?st = "st\<lparr>api_failed := False, failure_reason := None\<rparr>"
  have 1: "resolve_doi r =
      (if ref_doi r \<noteq> [] then Some (ref_doi r) else extract_doi_from_url (ref_url r))"
    by (simp add: resolve_doi_def extract_doi_from_url_def)
  have "doi_lookup net (resolve_doi r) ?st = (Some p, st1)"
    using assms by (simp add: doi_lookup_def)
  then have "locate tu net r ?st =
      (Inr \<lparr>paper_data = Some p, found_title = [], cleaned_title = None\<rparr>, st1)"
    by (rule locate_by_doi)
  then have 2: "verify_reference tu net r st =
      (Inr (Some p, cross_validate tu r (Some doi) [] p, select_url tu p), st1)"
    using assms(1) by (simp add: verify_reference_def)
  from get_paper_by_doi_found[OF assms(2)]
  have 3: "\<exists>k. 1 \<le> k \<and> k \<le> max_retries \<and>
      requests st1 = requests st @ replicate k (DoiRequest doi)"
    by auto
  from 1 2 3 show ?thesis by (intro conjI)
qed

subsection \<open>An instance of the parameters, for the concrete runs\<close>

definition demo_utils :: text_utils where
  "demo_utils =
     \<lparr>normalize_text = (\<lambda>s. s),
      clean_title_for_search = py_strip,
      find_best_match_scored =
        (\<lambda>results title year authors.
           case results of
             [] \<Rightarrow> (None, 0)
           | p # _ \<Rightarrow> (Some p, if py_lower (p_title p) = py_lower title then 1 else 0)),
      calculate_title_similarity = (\<lambda>a b. if py_lower a = py_lower b then 1 else 0),
      compare_authors =
        (\<lambda>cited correct. if cited = correct then (True, []) else (False, ''Author list mismatch'')),
      are_venues_substantially_different = (\<lambda>a b. py_lower a \<noteq> py_lower b),
      construct_doi_url = (\<lambda>d. ''https://doi.org/'' @ d),
      SIMILARITY_THRESHOLD = 8 / 10\<rparr>"

definition fresh_state :: checker_state where
  "fresh_state = \<lparr>api_failed = False, failure_reason = None, requests = []\<rparr>"

definition attention_citation :: citation where
  "attention_citation =
     \<lparr>ref_title = ''Attention Is All You Need'',
      ref_authors = [''Ashish Vaswani'', ''Noam Shazeer''],
      ref_year = 2017, ref_url = [], ref_raw_text = [],
      ref_doi = ''10.5555/3295222.3295349'', ref_journal = [],
      ref_venue = ''Neural Information Processing Systems''\<rparr>"

text \<open>A source that is rate limited once and then answers every DOI lookup.\<close>

definition retry_net :: network where
  "retry_net =
     \<lparr>search_get = (\<lambda>k q. Response 200 []),
      doi_get = (\<lambda>k d. if k = 0 then Response 429 attention_paper else Response 200 attention_paper),
      arxiv_get = (\<lambda>k i. None)\<rparr>"

theorem doi_lookup_short_circuits_witness:
  "resolve_doi attention_citation = Some ''10.5555/3295222.3295349'' \<and>
   verify_reference demo_utils retry_net attention_citation fresh_state =
     (Inr (Some attention_paper, [], Some ''https://arxiv.org/abs/1706.03762''),
      \<lparr>api_failed = False, failure_reason = None,
       requests = [DoiRequest ''10.5555/3295222.3295349'', DoiRequest ''10.5555/3295222.3295349'']\<rparr>)"
proof -
  let ?d = "''10.5555/3295222.3295349''"
  let ?st1 = "\<lparr>api_failed = False, failure_reason = None,
       requests = [DoiRequest ?d, DoiRequest ?d]\<rparr>"
  have d: "resolve_doi attention_citation = Some ?d" by code_simp
  have l: "get_paper_by_doi retry_net ?d (fresh_state\<lparr>api_failed := False, failure_reason := None\<rparr>) =
      (Some attention_paper, ?st1)"
    by code_simp
  have cv: "cross_validate demo_utils attention_citation (Some ?d) [] attention_paper = []"
    by code_simp
  have su: "select_url demo_utils attention_paper = Some ''https://arxiv.org/abs/1706.03762''"
    by code_simp
  from doi_lookup_short_circuits[OF d l, of demo_utils, THEN conjunct2, THEN conjunct1]
  have "verify_reference demo_utils retry_net attention_citation fresh_state =
      (Inr (Some attention_paper, [], Some ''https://arxiv.org/abs/1706.03762''), ?st1)"
    by (simp only: cv su)
  with d show ?thesis by (intro conjI)
qed

subsection \<open>The verdict for an accepted candidate\<close>

lemma verify_reference_found:
  assumes "fst (verify_reference tu net r st) = Inr (Some p, errs, u)"
  shows "\<exists>l st'. locate tu net r (st\<lparr>api_failed := False, failure_reason := None\<rparr>) = (Inr l, st') \<and>
           paper_data l = Some p \<and>
           errs = cross_validate tu r (resolve_doi r) (found_title l) p \<and>
           u = select_url tu p"
  using assms
  by (auto simp: verify_reference_def split: prod.splits sum.splits option.splits if_splits)

lemma kinds_author_warning [simp]:
  "is_warning_finding (author_warning e p)" "\<not> is_error_finding (author_warning e p)"
  by (simp_all add: is_warning_finding_def is_error_finding_def author_warning_def)

lemma kinds_author_error [simp]:
  "is_error_finding (author_error_finding e p)" "\<not> is_warning_finding (author_error_finding e p)"
  by (simp_all add: is_warning_finding_def is_error_finding_def author_error_finding_def)

lemma kinds_year_warning [simp]:
  "is_warning_finding (year_warning r p y)" "\<not> is_error_finding (year_warning r p y)"
  by (simp_all add: is_warning_finding_def is_error_finding_def year_warning_def)

lemma kinds_title_error [simp]:
  "is_error_finding (title_error r f p)" "\<not> is_warning_finding (title_error r f p)"
  by (simp_all add: is_warning_finding_def is_error_finding_def title_error_def)

text \<open>The field a finding is about: the value under \<open>error_type\<close> or \<open>warning_type\<close>.\<close>

definition finding_field :: "finding \<Rightarrow> pyval option" where
  "finding_field f =
     (case map_of f ''error_type'' of Some v \<Rightarrow> Some v | None \<Rightarrow> map_of f ''warning_type'')"

lemma check_title_fields:
  "f \<in> set (check_title tu r found p) \<Longrightarrow> finding_field f = Some (PStr ''title'')"
  by (auto simp: check_title_def Let_def title_error_def finding_field_def split: if_splits)

lemma check_authors_fields:
  "f \<in> set (check_authors tu r p) \<Longrightarrow> finding_field f = Some (PStr ''author'')"
  by (auto simp: check_authors_def Let_def author_warning_def author_error_finding_def
      finding_field_def split: if_splits prod.splits)

lemma check_year_fields:
  "f \<in> set (check_year r p) \<Longrightarrow> finding_field f = Some (PStr ''year'')"
  by (auto simp: check_year_def year_warning_def finding_field_def split: if_splits option.splits)

lemma check_venue_fields:
  "f \<in> set (check_venue tu r p) \<Longrightarrow> finding_field f = Some (PStr ''venue'')"
  by (auto simp: check_venue_def venue_missing_warning_def Let_def finding_field_def
      split: if_splits option.splits)

lemma check_doi_fields:
  "f \<in> set (check_doi doi p) \<Longrightarrow> finding_field f = Some (PStr ''doi'')"
  by (auto simp: check_doi_def Let_def finding_field_def split: if_splits option.splits)

text \<open>
  C9. The URL returned with an accepted candidate: the arXiv abstract URL built from the
  candidate's arXiv identifier when it has one; otherwise its open-access PDF URL when it
  has one; otherwise its \<open>url\<close> field when it has one; otherwise the DOI URL built from its
  DOI when it has one; otherwise nothing (the absent or empty \<open>url\<close> field).
\<close>

theorem verdict_url_priority:
  assumes "fst (verify_reference tu net r st) = Inr (Some p, errs, u)"
  shows "(\<forall>a. map_of (externalIds p) ''ArXiv'' = Some a \<and> a \<noteq> [] \<longrightarrow>
            u = Some (''https://arxiv.org/abs/'' @ a)) \<and>
         (\<not> truthy_str (map_of (externalIds p) ''ArXiv'') \<and> truthy_str (openAccessPdf p) \<longrightarrow>
            u = openAccessPdf p) \<and>
         (\<not> truthy_str (map_of (externalIds p) ''ArXiv'') \<and> \<not> truthy_str (openAccessPdf p) \<and>
          truthy_str (p_url p) \<longrightarrow> u = p_url p) \<and>
         (\<forall>d. \<not> truthy_str (map_of (externalIds p) ''ArXiv'') \<and> \<not> truthy_str (openAccessPdf p) \<and>
              \<not> truthy_str (p_url p) \<and> map_of (externalIds p) ''DOI'' = Some d \<and> d \<noteq> [] \<longrightarrow>
            u = Some (construct_doi_url tu d)) \<and>
         (\<not> truthy_str (map_of (externalIds p) ''ArXiv'') \<and> \<not> truthy_str (openAccessPdf p) \<and>
          \<not> truthy_str (p_url p) \<and> \<not> truthy_str (map_of (externalIds p) ''DOI'') \<longrightarrow>
            \<not> truthy_str u)"
proof -
  from verify_reference_found[OF assms] have u: "u = select_url tu p" by blast
  show ?thesis unfolding u select_url_def
    by (auto simp: truthy_str_def)
qed

text \<open>
  C7. For an accepted candidate, when the cited year and the candidate's year are both
  given and differ, the findings hold exactly one finding about the year; it is of kind
  warning, not of kind error, it carries the candidate's year, and its text ends with
  the note on the arXiv identifier exactly when the arXiv identifier of the citation's URL
  is the candidate's.
\<close>

theorem year_mismatch_is_warning:
  assumes "fst (verify_reference tu net r st) = Inr (Some p, errs, u)"
    and "ref_year r \<noteq> 0" and "p_year p = Some y" and "y \<noteq> 0" and "ref_year r \<noteq> y"
  shows "filter (\<lambda>f. finding_field f = Some (PStr ''year'')) errs = [year_warning r p y] \<and>
         is_warning_finding (year_warning r p y) \<and>
         \<not> is_error_finding (year_warning r p y) \<and>
         map_of (year_warning r p y) ''ref_year_correct'' = Some (PInt y) \<and>
         map_of (year_warning r p y) ''warning_details'' =
           Some (PStr (''Year mismatch: cited as '' @ str_int (ref_year r) @
              '' but actually '' @ str_int y @
              (if arxiv_id_match r p
               then '' (Note: ArXiv ID matches exactly - this may be due to conference vs. preprint year difference)''
               else []))) \<and>
         arxiv_id_match r p =
           (\<exists>a. arxiv_id_of_url (ref_url r) = Some a \<and> map_of (externalIds p) ''ArXiv'' = Some a)"
proof -
  from verify_reference_found[OF assms(1)] obtain found where
    errs: "errs = cross_validate tu r (resolve_doi r) found p" by blast
  have y: "check_year r p = [year_warning r p y]"
    using assms(2-5) by (simp add: check_year_def)
  have no: "filter (\<lambda>f. finding_field f = Some (PStr ''year'')) xs = []"
    if "\<And>f. f \<in> set xs \<Longrightarrow> finding_field f \<noteq> Some (PStr ''year'')" for xs
    using that by (induction xs) auto
  have t: "filter (\<lambda>f. finding_field f = Some (PStr ''year'')) (check_title tu r found p) = []"
    by (rule no) (auto dest: check_title_fields)
  have a: "filter (\<lambda>f. finding_field f = Some (PStr ''year'')) (check_authors tu r p) = []"
    by (rule no) (auto dest: check_authors_fields)
  have v: "filter (\<lambda>f. finding_field f = Some (PStr ''year'')) (check_venue tu r p) = []"
    by (rule no) (auto dest: check_venue_fields)
  have d: "filter (\<lambda>f. finding_field f = Some (PStr ''year'')) (check_doi (resolve_doi r) p) = []"
    by (rule no) (auto dest: check_doi_fields)
  have yf: "finding_field (year_warning r p y) = Some (PStr ''year'')"
    by (simp add: year_warning_def finding_field_def)
  have 1: "filter (\<lambda>f. finding_field f = Some (PStr ''year'')) errs = [year_warning r p y]"
    unfolding errs cross_validate_def by (simp add: t a v d y yf)
  have 2: "map_of (year_warning r p y) ''ref_year_correct'' = Some (PInt y)"
    by (simp add: year_warning_def)
  have 3: "map_of (year_warning r p y) ''warning_details'' =
           Some (PStr (''Year mismatch: cited as '' @ str_int (ref_year r) @
              '' but actually '' @ str_int y @
              (if arxiv_id_match r p
               then '' (Note: ArXiv ID matches exactly - this may be due to conference vs. preprint year difference)''
               else [])))"
    by (simp add: year_warning_def)
  have 4: "arxiv_id_match r p =
           (\<exists>a. arxiv_id_of_url (ref_url r) = Some a \<and> map_of (externalIds p) ''ArXiv'' = Some a)"
    by (simp add: arxiv_id_match_def split: option.splits)
  from 1 2 3 4 show ?thesis by simp
qed

text \<open>
  C8. For an accepted candidate, when the citation names authors and the comparison of
  the author lists reports a mismatch, the findings hold exactly one finding about the
  authors: of kind warning when the arXiv identifier of the citation's URL is the
  candidate's, of kind error otherwise; in both cases it carries the candidate's author
  names, joined by commas.
\<close>

theorem author_mismatch_finding:
  assumes "fst (verify_reference tu net r st) = Inr (Some p, errs, u)"
    and "ref_authors r \<noteq> []"
    and "compare_authors tu (ref_authors r) (p_authors p) = (False, author_error)"
  shows "(arxiv_id_match r p \<longrightarrow>
            filter (\<lambda>f. finding_field f = Some (PStr ''author'')) errs = [author_warning author_error p]) \<and>
         (\<not> arxiv_id_match r p \<longrightarrow>
            filter (\<lambda>f. finding_field f = Some (PStr ''author'')) errs =
              [author_error_finding author_error p]) \<and>
         is_warning_finding (author_warning author_error p) \<and>
         \<not> is_error_finding (author_warning author_error p) \<and>
         is_error_finding (author_error_finding author_error p) \<and>
         map_of (author_warning author_error p) ''ref_authors_correct'' =
           Some (PStr (py_join '', '' (p_authors p))) \<and>
         map_of (author_error_finding author_error p) ''ref_authors_correct'' =
           Some (PStr (py_join '', '' (p_authors p))) \<and>
         arxiv_id_match r p =
           (\<exists>a. arxiv_id_of_url (ref_url r) = Some a \<and> map_of (externalIds p) ''ArXiv'' = Some a)"
proof -
  from verify_reference_found[OF assms(1)] obtain found where
    errs: "errs = cross_validate tu r (resolve_doi r) found p" by blast
  have au: "check_authors tu r p =
      (if arxiv_id_match r p then [author_warning author_error p]
       else [author_error_finding author_error p])"
    using assms(2,3) by (simp add: check_authors_def)
  have no: "filter (\<lambda>f. finding_field f = Some (PStr ''author'')) xs = []"
    if "\<And>f. f \<in> set xs \<Longrightarrow> finding_field f \<noteq> Some (PStr ''author'')" for xs
    using that by (induction xs) auto
  have t: "filter (\<lambda>f. finding_field f = Some (PStr ''author'')) (check_title tu r found p) = []"
    by (rule no) (auto dest: check_title_fields)
  have y: "filter (\<lambda>f. finding_field f = Some (PStr ''author'')) (check_year r p) = []"
    by (rule no) (auto dest: check_year_fields)
  have v: "filter (\<lambda>f. finding_field f = Some (PStr ''author'')) (check_venue tu r p) = []"
    by (rule no) (auto dest: check_venue_fields)
  have d: "filter (\<lambda>f. finding_field f = Some (PStr ''author'')) (check_doi (resolve_doi r) p) = []"
    by (rule no) (auto dest: check_doi_fields)
  have fw: "finding_field (author_warning author_error p) = Some (PStr ''author'')"
    by (simp add: author_warning_def finding_field_def)
  have fe: "finding_field (author_error_finding author_error p) = Some (PStr ''author'')"
    by (simp add: author_error_finding_def finding_field_def)
  have 1: "filter (\<lambda>f. finding_field f = Some (PStr ''author'')) errs =
      (if arxiv_id_match r p then [author_warning author_error p]
       else [author_error_finding author_error p])"
    unfolding errs cross_validate_def by (simp add: t y v d au fw fe)
  have 2: "map_of (author_warning author_error p) ''ref_authors_correct'' =
           Some (PStr (py_join '', '' (p_authors p)))"
    "map_of (author_error_finding author_error p) ''ref_authors_correct'' =
           Some (PStr (py_join '', '' (p_authors p)))"
    by (simp_all add: author_warning_def author_error_finding_def)
  have 4: "arxiv_id_match r p =
           (\<exists>a. arxiv_id_of_url (ref_url r) = Some a \<and> map_of (externalIds p) ''ArXiv'' = Some a)"
    by (simp add: arxiv_id_match_def split: option.splits)
  have warn: "arxiv_id_match r p \<longrightarrow>
      filter (\<lambda>f. finding_field f = Some (PStr ''author'')) errs = [author_warning author_error p]"
    using 1 by simp
  have err: "\<not> arxiv_id_match r p \<longrightarrow>
      filter (\<lambda>f. finding_field f = Some (PStr ''author'')) errs =
        [author_error_finding author_error p]"
    using 1 by simp
  show ?thesis
    by (intro conjI warn err 2 4 kinds_author_warning kinds_author_error)
qed

text \<open>A source that answers every lookup and every search with the one paper it knows.\<close>

definition answering_net :: "paper \<Rightarrow> network" where
  "answering_net p =
     \<lparr>search_get = (\<lambda>k q. Response 200 [p]),
      doi_get = (\<lambda>k d. Response 200 p),
      arxiv_get = (\<lambda>k i. None)\<rparr>"

definition report_paper :: paper where
  "report_paper =
     \<lparr>p_title = ''A Technical Report'', p_authors = [], p_year = None, externalIds = [],
      p_url = None, openAccessPdf = None, p_venue = [], p_journal = []\<rparr>"

definition report_citation :: citation where
  "report_citation =
     \<lparr>ref_title = ''A Technical Report'', ref_authors = [], ref_year = 0, ref_url = [],
      ref_raw_text = [], ref_doi = ''10.1000/182'', ref_journal = [], ref_venue = []\<rparr>"

lemma returned_paperE:
  "(case x of Inr (Some p', errs, u) \<Rightarrow> p' = p | _ \<Rightarrow> False) \<Longrightarrow>
   \<exists>errs u. x = Inr (Some p, errs, u)"
  by (auto split: sum.splits option.splits prod.splits)

theorem verdict_url_priority_witness:
  "(\<exists>errs. fst (verify_reference demo_utils (answering_net attention_paper) attention_citation
       fresh_state) = Inr (Some attention_paper, errs, Some ''https://arxiv.org/abs/1706.03762'')) \<and>
   (\<exists>errs. fst (verify_reference demo_utils
       (answering_net (report_paper\<lparr>externalIds := [(''DOI'', ''10.1000/182'')],
          p_url := Some ''https://www.semanticscholar.org/paper/1'',
          openAccessPdf := Some ''https://example.org/report.pdf''\<rparr>))
       report_citation fresh_state) =
     Inr (Some (report_paper\<lparr>externalIds := [(''DOI'', ''10.1000/182'')],
          p_url := Some ''https://www.semanticscholar.org/paper/1'',
          openAccessPdf := Some ''https://example.org/report.pdf''\<rparr>), errs,
          Some ''https://example.org/report.pdf'')) \<and>
   (\<exists>errs. fst (verify_reference demo_utils
       (answering_net (report_paper\<lparr>externalIds := [(''DOI'', ''10.1000/182'')],
          p_url := Some ''https://www.semanticscholar.org/paper/1''\<rparr>))
       report_citation fresh_state) =
     Inr (Some (report_paper\<lparr>externalIds := [(''DOI'', ''10.1000/182'')],
          p_url := Some ''https://www.semanticscholar.org/paper/1''\<rparr>), errs,
          Some ''https://www.semanticscholar.org/paper/1'')) \<and>
   (\<exists>errs. fst (verify_reference demo_utils
       (answering_net (report_paper\<lparr>externalIds := [(''DOI'', ''10.1000/182'')]\<rparr>))
       report_citation fresh_state) =
     Inr (Some (report_paper\<lparr>externalIds := [(''DOI'', ''10.1000/182'')]\<rparr>), errs,
          Some ''https://doi.org/10.1000/182'')) \<and>
   (\<exists>errs u. fst (verify_reference demo_utils (answering_net report_paper) report_citation
       fresh_state) = Inr (Some report_paper, errs, u) \<and> \<not> truthy_str u)"
proof -
  let ?vr = "\<lambda>p c. fst (verify_reference demo_utils (answering_net p) c fresh_state)"
  let ?p2 = "report_paper\<lparr>externalIds := [(''DOI'', ''10.1000/182'')],
          p_url := Some ''https://www.semanticscholar.org/paper/1'',
          openAccessPdf := Some ''https://example.org/report.pdf''\<rparr>"
  let ?p3 = "report_paper\<lparr>externalIds := [(''DOI'', ''10.1000/182'')],
          p_url := Some ''https://www.semanticscholar.org/paper/1''\<rparr>"
  let ?p4 = "report_paper\<lparr>externalIds := [(''DOI'', ''10.1000/182'')]\<rparr>"
  have "case ?vr attention_paper attention_citation of
          Inr (Some p', errs, u) \<Rightarrow> p' = attention_paper | _ \<Rightarrow> False"
    by code_simp
  then obtain e1 u1 where r1: "?vr attention_paper attention_citation = Inr (Some attention_paper, e1, u1)"
    by (elim returned_paperE[THEN exE] exE) (rule that)
  have a1: "map_of (externalIds attention_paper) ''ArXiv'' = Some ''1706.03762'' \<and> ''1706.03762'' \<noteq> []"
    by code_simp
  have "u1 = Some (''https://arxiv.org/abs/'' @ ''1706.03762'')"
    by (rule verdict_url_priority[OF r1, THEN conjunct1, rule_format, OF a1])
  then have 1: "\<exists>errs. ?vr attention_paper attention_citation =
      Inr (Some attention_paper, errs, Some ''https://arxiv.org/abs/1706.03762'')"
    using r1 by simp
  have "case ?vr ?p2 report_citation of Inr (Some p', errs, u) \<Rightarrow> p' = ?p2 | _ \<Rightarrow> False"
    by code_simp
  then obtain e2 u2 where r2: "?vr ?p2 report_citation = Inr (Some ?p2, e2, u2)"
    by (elim returned_paperE[THEN exE] exE) (rule that)
  have a2: "\<not> truthy_str (map_of (externalIds ?p2) ''ArXiv'') \<and> truthy_str (openAccessPdf ?p2)"
    by code_simp
  have "u2 = openAccessPdf ?p2"
    by (rule verdict_url_priority[OF r2, THEN conjunct2, THEN conjunct1, rule_format, OF a2])
  then have 2: "\<exists>errs. ?vr ?p2 report_citation =
      Inr (Some ?p2, errs, Some ''https://example.org/report.pdf'')"
    using r2 by (simp add: report_paper_def)
  have "case ?vr ?p3 report_citation of Inr (Some p', errs, u) \<Rightarrow> p' = ?p3 | _ \<Rightarrow> False"
    by code_simp
  then obtain e3 u3 where r3: "?vr ?p3 report_citation = Inr (Some ?p3, e3, u3)"
    by (elim returned_paperE[THEN exE] exE) (rule that)
  have a3: "\<not> truthy_str (map_of (externalIds ?p3) ''ArXiv'') \<and> \<not> truthy_str (openAccessPdf ?p3) \<and>
      truthy_str (p_url ?p3)"
    by code_simp
  have "u3 = p_url ?p3"
    by (rule verdict_url_priority[OF r3, THEN conjunct2, THEN conjunct2, THEN conjunct1,
          rule_format, OF a3])
  then have 3: "\<exists>errs. ?vr ?p3 report_citation =
      Inr (Some ?p3, errs, Some ''https://www.semanticscholar.org/paper/1'')"
    using r3 by (simp add: report_paper_def)
  have "case ?vr ?p4 report_citation of Inr (Some p', errs, u) \<Rightarrow> p' = ?p4 | _ \<Rightarrow> False"
    by code_simp
  then obtain e4 u4 where r4: "?vr ?p4 report_citation = Inr (Some ?p4, e4, u4)"
    by (elim returned_paperE[THEN exE] exE) (rule that)
  have a4: "\<not> truthy_str (map_of (externalIds ?p4) ''ArXiv'') \<and> \<not> truthy_str (openAccessPdf ?p4) \<and>
      \<not> truthy_str (p_url ?p4) \<and> map_of (externalIds ?p4) ''DOI'' = Some ''10.1000/182'' \<and>
      ''10.1000/182'' \<noteq> []"
    by code_simp
  have "u4 = Some (construct_doi_url demo_utils ''10.1000/182'')"
    by (rule verdict_url_priority[OF r4, THEN conjunct2, THEN conjunct2, THEN conjunct2,
          THEN conjunct1, rule_format, OF a4])
  then have 4: "\<exists>errs. ?vr ?p4 report_citation =
      Inr (Some ?p4, errs, Some ''https://doi.org/10.1000/182'')"
    using r4 by (simp add: demo_utils_def)
  have "case ?vr report_paper report_citation of
          Inr (Some p', errs, u) \<Rightarrow> p' = report_paper | _ \<Rightarrow> False"
    by code_simp
  then obtain e5 u5 where r5: "?vr report_paper report_citation = Inr (Some report_paper, e5, u5)"
    by (elim returned_paperE[THEN exE] exE) (rule that)
  have a5: "\<not> truthy_str (map_of (externalIds report_paper) ''ArXiv'') \<and>
      \<not> truthy_str (openAccessPdf report_paper) \<and> \<not> truthy_str (p_url report_paper) \<and>
      \<not> truthy_str (map_of (externalIds report_paper) ''DOI'')"
    by code_simp
  have "\<not> truthy_str u5"
    by (rule verdict_url_priority[OF r5, THEN conjunct2, THEN conjunct2, THEN conjunct2,
          THEN conjunct2, rule_format, OF a5])
  then have 5: "\<exists>errs u. ?vr report_paper report_citation = Inr (Some report_paper, errs, u) \<and>
      \<not> truthy_str u"
    using r5 by (intro exI conjI)
  from 1 2 3 4 5 show ?thesis by (intro conjI)
qed

theorem year_mismatch_is_warning_witness:
  "fst (verify_reference demo_utils (answering_net (attention_paper\<lparr>p_year := Some 2018\<rparr>))
        attention_citation fresh_state) =
     Inr (Some (attention_paper\<lparr>p_year := Some 2018\<rparr>),
          [[(''warning_type'', PStr ''year''),
            (''warning_details'', PStr ''Year mismatch: cited as 2017 but actually 2018''),
            (''ref_year_correct'', PInt 2018)]],
          Some ''https://arxiv.org/abs/1706.03762'') \<and>
   year_warning attention_citation (attention_paper\<lparr>p_year := Some 2018\<rparr>) 2018 =
     [(''warning_type'', PStr ''year''),
      (''warning_details'', PStr ''Year mismatch: cited as 2017 but actually 2018''),
      (''ref_year_correct'', PInt 2018)] \<and>
   is_warning_finding (year_warning attention_citation (attention_paper\<lparr>p_year := Some 2018\<rparr>) 2018) \<and>
   \<not> is_error_finding (year_warning attention_citation (attention_paper\<lparr>p_year := Some 2018\<rparr>) 2018) \<and>
   (\<exists>errs u. fst (verify_reference demo_utils (answering_net (attention_paper\<lparr>p_year := Some 2018\<rparr>))
        (attention_citation\<lparr>ref_url := ''https://arxiv.org/abs/1706.03762''\<rparr>) fresh_state) =
        Inr (Some (attention_paper\<lparr>p_year := Some 2018\<rparr>), errs, u) \<and>
      map (\<lambda>f. map_of f ''warning_details'')
        (filter (\<lambda>f. finding_field f = Some (PStr ''year'')) errs) =
      [Some (PStr ''Year mismatch: cited as 2017 but actually 2018 (Note: ArXiv ID matches exactly - this may be due to conference vs. preprint year difference)'')])"
proof -
  let ?p = "attention_paper\<lparr>p_year := Some 2018\<rparr>"
  let ?c = "attention_citation"
  let ?c2 = "attention_citation\<lparr>ref_url := ''https://arxiv.org/abs/1706.03762''\<rparr>"
  let ?w = "[(''warning_type'', PStr ''year''),
            (''warning_details'', PStr ''Year mismatch: cited as 2017 but actually 2018''),
            (''ref_year_correct'', PInt 2018)]"
  let ?yr = "\<lambda>f. finding_field f = Some (PStr ''year'')"
  have run: "fst (verify_reference demo_utils (answering_net ?p) ?c fresh_state) =
      Inr (Some ?p, [?w], Some ''https://arxiv.org/abs/1706.03762'')"
    by code_simp
  have h1: "ref_year ?c \<noteq> 0" by code_simp
  have h2: "p_year ?p = Some 2018" by simp
  have h3: "(2018::int) \<noteq> 0" by simp
  have h4: "ref_year ?c \<noteq> 2018" by code_simp
  note inst = year_mismatch_is_warning[OF run h1 h2 h3 h4]
  have f: "filter ?yr [?w] = [?w]" by code_simp
  have "filter ?yr [?w] = [year_warning ?c ?p 2018]" by (rule inst[THEN conjunct1])
  then have w: "year_warning ?c ?p 2018 = ?w" by (simp only: f list.inject simp_thms)
  have k1: "is_warning_finding (year_warning ?c ?p 2018)"
    by (rule inst[THEN conjunct2, THEN conjunct1])
  have k2: "\<not> is_error_finding (year_warning ?c ?p 2018)"
    by (rule inst[THEN conjunct2, THEN conjunct2, THEN conjunct1])
  have "case fst (verify_reference demo_utils (answering_net ?p) ?c2 fresh_state) of
          Inr (Some p', errs, u) \<Rightarrow> p' = ?p | _ \<Rightarrow> False"
    by code_simp
  then obtain errs u where run2:
    "fst (verify_reference demo_utils (answering_net ?p) ?c2 fresh_state) = Inr (Some ?p, errs, u)"
    by (elim returned_paperE[THEN exE] exE) (rule that)
  have g1: "ref_year ?c2 \<noteq> 0" by code_simp
  have g4: "ref_year ?c2 \<noteq> 2018" by code_simp
  note inst2 = year_mismatch_is_warning[OF run2 g1 h2 h3 g4]
  have m: "arxiv_id_match ?c2 ?p" by code_simp
  have s1: "str_int (ref_year attention_citation) = ''2017''"
    by (simp add: attention_citation_def str_int_def digit_char_def)
  have s2: "str_int 2018 = ''2018''"
    by (simp add: str_int_def digit_char_def)
  have flt: "filter ?yr errs = [year_warning ?c2 ?p 2018]" by (rule inst2[THEN conjunct1])
  have det: "map_of (year_warning ?c2 ?p 2018) ''warning_details'' =
      Some (PStr (''Year mismatch: cited as '' @ str_int (ref_year ?c2) @
              '' but actually '' @ str_int 2018 @
              (if arxiv_id_match ?c2 ?p
               then '' (Note: ArXiv ID matches exactly - this may be due to conference vs. preprint year difference)''
               else [])))"
    by (rule inst2[THEN conjunct2, THEN conjunct2, THEN conjunct2, THEN conjunct2, THEN conjunct1])
  have "map (\<lambda>f. map_of f ''warning_details'') (filter ?yr errs) =
      [Some (PStr ''Year mismatch: cited as 2017 but actually 2018 (Note: ArXiv ID matches exactly - this may be due to conference vs. preprint year difference)'')]"
    unfolding flt by (simp add: det m s1 s2)
  with run2 have 5: "\<exists>errs u. fst (verify_reference demo_utils (answering_net ?p) ?c2 fresh_state) =
        Inr (Some ?p, errs, u) \<and>
      map (\<lambda>f. map_of f ''warning_details'') (filter ?yr errs) =
      [Some (PStr ''Year mismatch: cited as 2017 but actually 2018 (Note: ArXiv ID matches exactly - this may be due to conference vs. preprint year difference)'')]"
    by (intro exI conjI)
  from run w k1 k2 5 show ?thesis by (intro conjI)
qed

theorem author_mismatch_finding_witness:
  "(\<exists>errs u. fst (verify_reference demo_utils (answering_net attention_paper)
        (attention_citation\<lparr>ref_authors := [''A. Vaswani'']\<rparr>) fresh_state) =
        Inr (Some attention_paper, errs, u) \<and>
      filter (\<lambda>f. finding_field f = Some (PStr ''author'')) errs =
        [[(''error_type'', PStr ''author''),
          (''error_details'', PStr ''Author list mismatch''),
          (''ref_authors_correct'', PStr ''Ashish Vaswani, Noam Shazeer'')]]) \<and>
   (\<exists>errs u. fst (verify_reference demo_utils (answering_net attention_paper)
        (attention_citation\<lparr>ref_authors := [''A. Vaswani''],
           ref_url := ''https://arxiv.org/abs/1706.03762''\<rparr>) fresh_state) =
        Inr (Some attention_paper, errs, u) \<and>
      filter (\<lambda>f. finding_field f = Some (PStr ''author'')) errs =
        [[(''warning_type'', PStr ''author''),
          (''warning_details'', PStr ''Author list mismatch (Note: ArXiv ID matches exactly - this may be due to incomplete author data in Semantic Scholar)''),
          (''ref_authors_correct'', PStr ''Ashish Vaswani, Noam Shazeer'')]])"
proof -
  let ?p = "attention_paper"
  let ?c1 = "attention_citation\<lparr>ref_authors := [''A. Vaswani'']\<rparr>"
  let ?c2 = "attention_citation\<lparr>ref_authors := [''A. Vaswani''],
           ref_url := ''https://arxiv.org/abs/1706.03762''\<rparr>"
  let ?au = "\<lambda>f. finding_field f = Some (PStr ''author'')"
  have "case fst (verify_reference demo_utils (answering_net ?p) ?c1 fresh_state) of
          Inr (Some p', errs, u) \<Rightarrow> p' = ?p | _ \<Rightarrow> False"
    by code_simp
  then obtain e1 u1 where run1:
    "fst (verify_reference demo_utils (answering_net ?p) ?c1 fresh_state) = Inr (Some ?p, e1, u1)"
    by (elim returned_paperE[THEN exE] exE) (rule that)
  have a1: "ref_authors ?c1 \<noteq> []" by simp
  have c1: "compare_authors demo_utils (ref_authors ?c1) (p_authors ?p) = (False, ''Author list mismatch'')"
    by code_simp
  have n1: "\<not> arxiv_id_match ?c1 ?p" by code_simp
  have v1: "author_error_finding ''Author list mismatch'' ?p =
      [(''error_type'', PStr ''author''),
       (''error_details'', PStr ''Author list mismatch''),
       (''ref_authors_correct'', PStr ''Ashish Vaswani, Noam Shazeer'')]"
    by code_simp
  have "filter ?au e1 = [author_error_finding ''Author list mismatch'' ?p]"
    by (rule author_mismatch_finding[OF run1 a1 c1, THEN conjunct2, THEN conjunct1, rule_format, OF n1])
  then have 1: "\<exists>errs u. fst (verify_reference demo_utils (answering_net ?p) ?c1 fresh_state) =
        Inr (Some ?p, errs, u) \<and>
      filter ?au errs =
        [[(''error_type'', PStr ''author''),
          (''error_details'', PStr ''Author list mismatch''),
          (''ref_authors_correct'', PStr ''Ashish Vaswani, Noam Shazeer'')]]"
    unfolding v1 using run1 by (intro exI conjI)
  have "case fst (verify_reference demo_utils (answering_net ?p) ?c2 fresh_state) of
          Inr (Some p', errs, u) \<Rightarrow> p' = ?p | _ \<Rightarrow> False"
    by code_simp
  then obtain e2 u2 where run2:
    "fst (verify_reference demo_utils (answering_net ?p) ?c2 fresh_state) = Inr (Some ?p, e2, u2)"
    by (elim returned_paperE[THEN exE] exE) (rule that)
  have a2: "ref_authors ?c2 \<noteq> []" by simp
  have c2: "compare_authors demo_utils (ref_authors ?c2) (p_authors ?p) = (False, ''Author list mismatch'')"
    by code_simp
  have m2: "arxiv_id_match ?c2 ?p" by code_simp
  have v2: "author_warning ''Author list mismatch'' ?p =
      [(''warning_type'', PStr ''author''),
       (''warning_details'', PStr ''Author list mismatch (Note: ArXiv ID matches exactly - this may be due to incomplete author data in Semantic Scholar)''),
       (''ref_authors_correct'', PStr ''Ashish Vaswani, Noam Shazeer'')]"
    by code_simp
  have "filter ?au e2 = [author_warning ''Author list mismatch'' ?p]"
    by (rule author_mismatch_finding[OF run2 a2 c2, THEN conjunct1, rule_format, OF m2])
  then have 2: "\<exists>errs u. fst (verify_reference demo_utils (answering_net ?p) ?c2 fresh_state) =
        Inr (Some ?p, errs, u) \<and>
      filter ?au errs =
        [[(''warning_type'', PStr ''author''),
          (''warning_details'', PStr ''Author list mismatch (Note: ArXiv ID matches exactly - this may be due to incomplete author data in Semantic Scholar)''),
          (''ref_authors_correct'', PStr ''Ashish Vaswani, Noam Shazeer'')]]"
    unfolding v2 using run2 by (intro exI conjI)
  from 1 2 show ?thesis by (intro conjI)
qed

end
